theory Spec2Isabelle
  imports Complex_Main "HOL-Library.Word"
begin

section \<open>JavaScript strings\<close>

text \<open>
  A JavaScript string is a sequence of UTF-16 code units; \<open>length\<close>, indexing, \<open>===\<close> on
  one-character strings and regular expressions without the \<open>u\<close> flag all work on code
  units. \<open>utf16\<close> writes an ASCII literal as its code units.
\<close>

type_synonym js_string = "16 word list"

definition utf16 :: "string \<Rightarrow> js_string" where
  "utf16 s = map of_char s"

text \<open>\<open>str.replace(/c/g, rep)\<close> for a single code unit \<open>c\<close>.\<close>

definition replace_all :: "16 word \<Rightarrow> js_string \<Rightarrow> js_string \<Rightarrow> js_string" where
  "replace_all c rep s = concat (map (\<lambda>u. if u = c then rep else [u]) s)"

text \<open>
  \<open>String.prototype.trim\<close> removes leading and trailing WhiteSpace and LineTerminator
  code units (ECMAScript: TAB, LF, VT, FF, CR, SP, NBSP, U+1680, U+2000 to U+200A, U+2028,
  U+2029, U+202F, U+205F, U+3000 and U+FEFF).
\<close>

definition is_ws :: "16 word \<Rightarrow> bool" where
  "is_ws c \<longleftrightarrow>
     (0x9 \<le> c \<and> c \<le> 0xD) \<or> c = 0x20 \<or> c = 0xA0 \<or> c = 0x1680 \<or>
     (0x2000 \<le> c \<and> c \<le> 0x200A) \<or> c = 0x2028 \<or> c = 0x2029 \<or> c = 0x202F \<or>
     c = 0x205F \<or> c = 0x3000 \<or> c = 0xFEFF"

definition js_trim :: "js_string \<Rightarrow> js_string" where
  "js_trim s = rev (dropWhile is_ws (rev (dropWhile is_ws s)))"

text \<open>\<open>Array.prototype.join\<close> on an array of strings.\<close>

fun js_join :: "js_string \<Rightarrow> js_string list \<Rightarrow> js_string" where
  "js_join sep [] = []"
| "js_join sep [x] = x"
| "js_join sep (x # y # ys) = x @ sep @ js_join sep (y # ys)"

section \<open>Token rendering (src/feng\_custom/static/french\_vocab.js, src/unnamed/part\_001)\<close>

text \<open>
  \<open>escapeHtml\<close>: five global replacements in the order of the source, the ampersand first.
  The argument is a string, so \<open>str || ""\<close> is \<open>str\<close>.
\<close>

definition escapeHtml :: "js_string \<Rightarrow> js_string" where
  "escapeHtml str =
     replace_all 0x27 (utf16 ''&#39;'')
       (replace_all 0x22 (utf16 ''&quot;'')
         (replace_all 0x3E (utf16 ''&gt;'')
           (replace_all 0x3C (utf16 ''&lt;'')
             (replace_all 0x26 (utf16 ''&amp;'') str))))"

text \<open>A token of the diff service: \<open>{text, status}\<close>; the status is any string.\<close>

record token =
  tok_text :: js_string
  tok_status :: js_string

text \<open>The locals \<open>cls\<close> and \<open>html\<close> of the \<open>forEach\<close> callback.\<close>

definition cls :: "token \<Rightarrow> js_string" where
  "cls token =
     (if tok_status token = utf16 ''match'' then utf16 ''diff-match''
      else if tok_status token = utf16 ''missing'' then utf16 ''diff-miss''
      else utf16 ''diff-extra'')"

definition html :: "token \<Rightarrow> js_string" where
  \<open>html token =
     utf16 ''<span class="'' @ cls token @ utf16 ''">'' @ escapeHtml (tok_text token)
       @ utf16 ''</span>''\<close>

text \<open>
  The two anchored regular expressions: the text is exactly one code unit of the class.
  The first class holds the comma, full stop, semicolon, exclamation mark, question mark,
  closing parenthesis, colon, closing square bracket, U+201D and U+2019; the second the
  opening parenthesis, opening brace, U+201C and U+2018.
\<close>

definition isPunct :: "js_string \<Rightarrow> bool" where
  "isPunct t =
     (case t of
        [c] \<Rightarrow> c \<in> set [0x2C, 0x2E, 0x3B, 0x21, 0x3F, 0x29, 0x3A, 0x5D, 0x201D, 0x2019]
      | _ \<Rightarrow> False)"

definition isOpening :: "js_string \<Rightarrow> bool" where
  "isOpening t = (case t of [c] \<Rightarrow> c \<in> set [0x28, 0x7B, 0x201C, 0x2018] | _ \<Rightarrow> False)"

text \<open>
  \<open>tokens.forEach((token, idx) => ...)\<close>, pushing onto \<open>parts\<close>. \<open>tokens[idx - 1]\<close> is
  \<open>undefined\<close> at index 0, where \<open>prevIsOpening\<close> is false.
\<close>

function forEach_loop :: "token list \<Rightarrow> nat \<Rightarrow> js_string list \<Rightarrow> js_string list" where
  "forEach_loop tokens idx parts =
     (if idx < length tokens then
        (let token = tokens ! idx;
             prev = (if idx = 0 then None else Some (tokens ! (idx - 1)));
             prevIsOpening = (case prev of None \<Rightarrow> False | Some p \<Rightarrow> isOpening (tok_text p));
             parts1 = (if idx > 0 \<and> \<not> isPunct (tok_text token) \<and> \<not> prevIsOpening
                       then parts @ [utf16 '' ''] else parts)
         in forEach_loop tokens (idx + 1) (parts1 @ [html token]))
      else parts)"
  by pat_completeness auto
termination
  by (relation "measure (\<lambda>(tokens, idx, parts). length tokens - idx)") auto

text \<open>
  \<open>renderTokens\<close>; the argument is \<open>None\<close> when the caller passes \<open>undefined\<close> or \<open>null\<close>.
  \<open>parts.join("")\<close> is the concatenation of the parts.
\<close>

definition renderTokens :: "token list option \<Rightarrow> js_string" where
  "renderTokens tokens =
     (case tokens of
        None \<Rightarrow> []
      | Some ts \<Rightarrow> if length ts = 0 then [] else concat (forEach_loop ts 0 []))"

section \<open>The pronunciation scorer (src/unnamed/part\_003)\<close>

subsection \<open>Platform built-ins\<close>

text \<open>
  \<open>String.prototype.normalize("NFD")\<close> and \<open>String.prototype.toLowerCase\<close> are built-ins of
  the host, driven by the Unicode character database, which is not part of the repository.
  They are parameters of the model.
\<close>

record platform =
  normalize_NFD :: "js_string \<Rightarrow> js_string"
  toLowerCase :: "js_string \<Rightarrow> js_string"

subsection \<open>normalizeForCompare\<close>

text \<open>
  The first \<open>replace\<close>: delete every code unit from U+0300 to U+036F (the combining
  diacritical marks).
\<close>

definition strip_marks :: "js_string \<Rightarrow> js_string" where
  "strip_marks s = filter (\<lambda>c. \<not> (0x300 \<le> c \<and> c \<le> 0x36F)) s"

text \<open>
  The character class of the second regular expression: the letters a to z, U+0153
  (oe ligature), U+00E6 (ae ligature), U+00E7 (c with cedilla), the apostrophe and the
  hyphen.
\<close>

definition keep_unit :: "16 word \<Rightarrow> bool" where
  "keep_unit c \<longleftrightarrow>
     (0x61 \<le> c \<and> c \<le> 0x7A) \<or> c = 0x153 \<or> c = 0xE6 \<or> c = 0xE7 \<or> c = 0x27 \<or> c = 0x2D"

text \<open>
  The second \<open>replace\<close>: every maximal run of code units outside the class becomes one
  space.
\<close>

function collapse :: "js_string \<Rightarrow> js_string" where
  "collapse [] = []"
| "collapse (c # cs) =
     (if keep_unit c then c # collapse cs
      else 0x20 # collapse (dropWhile (\<lambda>u. \<not> keep_unit u) cs))"
  by pat_completeness auto
termination
  by (relation "measure length") (auto simp: length_dropWhile_le less_Suc_eq_le)

text \<open>The argument is a string, so \<open>value || ""\<close> is \<open>value\<close>.\<close>

definition normalizeForCompare :: "platform \<Rightarrow> js_string \<Rightarrow> js_string" where
  "normalizeForCompare P v =
     js_trim (collapse (toLowerCase P (strip_marks (normalize_NFD P v))))"

subsection \<open>levenshtein\<close>

text \<open>
  The buffer \<open>dp\<close> is a list of \<open>n + 1\<close> numbers, updated in place by index. The three
  \<open>for\<close> loops are the three recursive functions below; every index they read or write is
  within the buffer. \<open>new Array(n + 1)\<close> has empty slots, written here as 0: the first
  loop fills each of them before anything reads it.
\<close>

function init_loop :: "nat \<Rightarrow> nat \<Rightarrow> nat list \<Rightarrow> nat list" where
  "init_loop n j dp = (if j \<le> n then init_loop n (j + 1) (dp[j := j]) else dp)"
  by pat_completeness auto
termination
  by (relation "measure (\<lambda>(n, j, dp). n + 1 - j)") auto

function inner_loop ::
  "'a list \<Rightarrow> 'a list \<Rightarrow> nat \<Rightarrow> nat \<Rightarrow> nat \<Rightarrow> nat \<Rightarrow> nat list \<Rightarrow> nat list" where
  "inner_loop a b n i j prev dp =
     (if j \<le> n then
        (let temp = dp ! j;
             dp' = (if a ! (i - 1) = b ! (j - 1)
                    then dp[j := prev]
                    else dp[j := min (prev + 1) (min (dp ! j + 1) (dp ! (j - 1) + 1))])
         in inner_loop a b n i (j + 1) temp dp')
      else dp)"
  by pat_completeness auto
termination
  by (relation "measure (\<lambda>(a, b, n, i, j, prev, dp). n + 1 - j)") auto

function outer_loop ::
  "'a list \<Rightarrow> 'a list \<Rightarrow> nat \<Rightarrow> nat \<Rightarrow> nat \<Rightarrow> nat list \<Rightarrow> nat list" where
  "outer_loop a b m n i dp =
     (if i \<le> m then
        (let prev = dp ! 0;
             dp0 = dp[0 := i]
         in outer_loop a b m n (i + 1) (inner_loop a b n i 1 prev dp0))
      else dp)"
  by pat_completeness auto
termination
  by (relation "measure (\<lambda>(a, b, m, n, i, dp). m + 1 - i)") auto

definition levenshtein :: "'a list \<Rightarrow> 'a list \<Rightarrow> nat" where
  "levenshtein a b =
     (let m = length a; n = length b in
      if m = 0 then n
      else if n = 0 then m
      else (let dp = init_loop n 0 (replicate (n + 1) 0)
            in outer_loop a b m n 1 dp ! n))"

subsection \<open>similarityScore\<close>

text \<open>
  The score is a JavaScript number. It is modelled as an exact real: the quotient of two
  string lengths, subtracted from 1. The thresholds 0.85 and 0.6 of the caller are the
  reals 85/100 and 60/100.
\<close>

definition similarityScore :: "platform \<Rightarrow> js_string \<Rightarrow> js_string \<Rightarrow> real" where
  "similarityScore P expected actual =
     (let cleanExpected = normalizeForCompare P expected;
          cleanActual = normalizeForCompare P actual in
      if cleanExpected = [] \<or> cleanActual = [] then 0
      else (let distance = levenshtein cleanExpected cleanActual;
                maxLen = max (length cleanExpected) (length cleanActual) in
            if maxLen = 0 then 0
            else 1 - real distance / real maxLen))"

subsection \<open>evaluatePronunciation\<close>

text \<open>
  The shadowing card as far as the evaluation reads it: \<open>fr_sentence\<close> is
  \<open>currentCard.data?.sentence\<close>, \<open>None\<close> when the data or the sentence is absent.
\<close>

record fr_card =
  fr_cardId :: nat
  fr_sentence :: "js_string option"

text \<open>
  What the function writes into the two boxes. The feedback is one of five messages of the
  source: browser without speech recognition, no valid text recognized, very close, decent
  (mind stress and liaison), large deviation. The last three also print a percentage,
  \<open>Math.round(score * 100)\<close>, which the browser computes in floating point from the
  floating-point score; that number is not part of the feedback here, which records the
  message only. The transcript box is hidden and emptied, or shows the escaped recognized
  text, or the notice that recognition returned nothing.
\<close>

datatype feedback = Unsupported | NoValidText | VeryClose | Decent | LargeDeviation

datatype transcript = TranscriptHidden | Recognized js_string | NoRecognition

record pronunciation_boxes =
  transcriptBox :: transcript
  feedbackBox :: feedback

text \<open>
  The result is \<open>None\<close> when the function returns without touching the boxes (no current
  card). \<open>speechRecognition\<close> says whether the browser offers \<open>SpeechRecognition\<close>;
  \<open>recognizedSegments\<close> is the module variable of that name.
\<close>

definition evaluatePronunciation ::
  "platform \<Rightarrow> bool \<Rightarrow> fr_card option \<Rightarrow> js_string list \<Rightarrow> pronunciation_boxes option" where
  "evaluatePronunciation P speechRecognition currentCard recognizedSegments =
     (case currentCard of
        None \<Rightarrow> None
      | Some cur \<Rightarrow>
          if \<not> speechRecognition
          then Some \<lparr>transcriptBox = TranscriptHidden, feedbackBox = Unsupported\<rparr>
          else
            (let expected = (case fr_sentence cur of None \<Rightarrow> [] | Some s \<Rightarrow> s);
                 actual = js_trim (js_join (utf16 '' '') recognizedSegments);
                 shown = (if actual \<noteq> [] then Recognized (escapeHtml actual) else NoRecognition);
                 feedback =
                   (if actual \<noteq> [] then
                      (let score = similarityScore P expected actual in
                       if score \<ge> 85 / 100 then VeryClose
                       else if score \<ge> 60 / 100 then Decent
                       else LargeDeviation)
                    else NoValidText)
             in Some \<lparr>transcriptBox = shown, feedbackBox = feedback\<rparr>))"

section \<open>The card view controller (src/unnamed/part\_001)\<close>

text \<open>
  The module state and the parts of the page that the reveal and rating actions read or
  write: the variables \<open>currentCard\<close> and \<open>answerShown\<close>, the \<open>disabled\<close> flags of the
  reveal and next buttons, the buttons inside the ease container with their \<open>disabled\<close>
  flags, the answer box (\<open>None\<close> while hidden), the status line, and the requests sent so
  far, oldest first. The regions that only display the card (prompt, audio, inputs) are
  left out. The card carries its id and its \<open>buttons\<close>, \<open>None\<close> when that property is not
  an array.
\<close>

record anki_card =
  cardId :: nat
  buttons :: "nat list option"

datatype request = GetNext | PostReveal | PostAnswer nat nat

datatype status_text =
  Loading | NoDueCards | CurrentCard nat | FetchFailed js_string
  | Submitting | Submitted | SubmitFailed js_string

record page =
  currentCard :: "anki_card option"
  answerShown :: bool
  revealBtn_disabled :: bool
  nextBtn_disabled :: bool
  easeButtons :: "(nat \<times> bool) list"
  answerBox :: "js_string option"
  statusEl :: status_text
  requests :: "request list"

text \<open>
  The state when the module has been loaded and nothing has run yet. \<open>init\<close> calls
  \<open>loadCard\<close> at once, which sets the flags of the buttons and the status line.
\<close>

definition initial_page :: page where
  "initial_page =
     \<lparr>currentCard = None, answerShown = False, revealBtn_disabled = False,
      nextBtn_disabled = False, easeButtons = [], answerBox = None, statusEl = Loading,
      requests = []\<rparr>"

definition clearUI :: "page \<Rightarrow> page" where
  "clearUI s =
     s\<lparr>currentCard := None, answerShown := False, answerBox := None, easeButtons := [],
       revealBtn_disabled := True\<rparr>"

definition renderEaseButtons :: "nat list \<Rightarrow> page \<Rightarrow> page" where
  "renderEaseButtons bs s = s\<lparr>easeButtons := map (\<lambda>btn. (btn, False)) bs\<rparr>"

text \<open>
  An \<open>async\<close> function runs without interruption up to its next \<open>await\<close>. Each function
  below is one such stretch. \<open>showAnswer_enter\<close> is \<open>showAnswer\<close> up to the \<open>await\<close> of the
  reveal notification; the flag it returns says whether the function goes on (true) or has
  returned at the guard (false). \<open>showAnswer_finish\<close> is its last stretch, which puts the
  rendered answer into the answer box; the rendered text, which depends on the card and on
  the answer of the diff service, is given. Should the current card have been cleared in
  the meantime, reading its fields throws and nothing is written.
\<close>

definition showAnswer_enter :: "page \<Rightarrow> page \<times> bool" where
  "showAnswer_enter s =
     (if currentCard s = None \<or> answerShown s then (s, False)
      else (s\<lparr>answerShown := True, requests := requests s @ [PostReveal]\<rparr>, True))"

definition showAnswer_finish :: "js_string \<Rightarrow> page \<Rightarrow> page" where
  "showAnswer_finish rendered s =
     (case currentCard s of None \<Rightarrow> s | Some c \<Rightarrow> s\<lparr>answerBox := Some rendered\<rparr>)"

text \<open>
  \<open>loadCard\<close> up to the \<open>await\<close> of the fetch, and its continuation on each of the three
  outcomes of the fetch (a card, status 404, any other failure), with the \<open>finally\<close> block.
\<close>

definition loadCard_enter :: "page \<Rightarrow> page" where
  "loadCard_enter s =
     (clearUI s)\<lparr>statusEl := Loading, nextBtn_disabled := True,
                  requests := requests (clearUI s) @ [GetNext]\<rparr>"

datatype next_response = NextCard anki_card | NotFound | NextError js_string

definition loadCard_response :: "next_response \<Rightarrow> page \<Rightarrow> page" where
  "loadCard_response r s =
     (case r of
        NotFound \<Rightarrow> s\<lparr>statusEl := NoDueCards, nextBtn_disabled := False\<rparr>
      | NextError msg \<Rightarrow> s\<lparr>statusEl := FetchFailed msg, nextBtn_disabled := False\<rparr>
      | NextCard payload \<Rightarrow>
          s\<lparr>currentCard := Some payload, easeButtons := [],
            statusEl := CurrentCard (cardId payload), revealBtn_disabled := False,
            nextBtn_disabled := False\<rparr>)"

text \<open>
  \<open>submitAnswer\<close> up to the \<open>await\<close> of the request (the flag says whether the request was
  sent), its \<open>catch\<close> block, and its continuation after a successful response, which enters
  \<open>loadCard\<close>.
\<close>

definition submitAnswer_enter :: "nat \<Rightarrow> page \<Rightarrow> page \<times> bool" where
  "submitAnswer_enter ease s =
     (case currentCard s of
        None \<Rightarrow> (s, False)
      | Some c \<Rightarrow>
          (s\<lparr>statusEl := Submitting,
             easeButtons := map (\<lambda>(btn, disabled). (btn, True)) (easeButtons s),
             revealBtn_disabled := True, nextBtn_disabled := True,
             requests := requests s @ [PostAnswer (cardId c) ease]\<rparr>, True))"

definition submitAnswer_failed :: "js_string \<Rightarrow> page \<Rightarrow> page" where
  "submitAnswer_failed msg s =
     s\<lparr>statusEl := SubmitFailed msg,
       easeButtons := map (\<lambda>(btn, disabled). (btn, False)) (easeButtons s),
       revealBtn_disabled := False, nextBtn_disabled := False\<rparr>"

definition submitAnswer_ok :: "page \<Rightarrow> page" where
  "submitAnswer_ok s = loadCard_enter (s\<lparr>statusEl := Submitted\<rparr>)"

text \<open>
  The click handlers registered by \<open>init\<close> and \<open>renderEaseButtons\<close>. A disabled button
  dispatches no click event. The handler of the reveal button disables the button, awaits
  \<open>showAnswer\<close> and then renders the ease buttons of the current card; when \<open>showAnswer\<close>
  returns at its guard, that happens at once.
\<close>

definition render_current_buttons :: "page \<Rightarrow> page" where
  "render_current_buttons s =
     (case currentCard s of
        None \<Rightarrow> s
      | Some c \<Rightarrow> (case buttons c of None \<Rightarrow> s | Some bs \<Rightarrow> renderEaseButtons bs s))"

definition revealBtn_click :: "page \<Rightarrow> page \<times> bool" where
  "revealBtn_click s =
     (if revealBtn_disabled s then (s, False)
      else (let r = showAnswer_enter (s\<lparr>revealBtn_disabled := True\<rparr>) in
            if snd r then r else (render_current_buttons (fst r), False)))"

definition revealBtn_click_finish :: "js_string \<Rightarrow> page \<Rightarrow> page" where
  "revealBtn_click_finish rendered s = render_current_buttons (showAnswer_finish rendered s)"

definition nextBtn_click :: "page \<Rightarrow> page" where
  "nextBtn_click s = (if nextBtn_disabled s then s else loadCard_enter s)"

definition easeBtn_click :: "nat \<Rightarrow> page \<Rightarrow> page \<times> bool" where
  "easeBtn_click ease s =
     (if (ease, False) \<in> set (easeButtons s) then submitAnswer_enter ease s else (s, False))"

text \<open>
  A run of the page: card 7 with the four ease buttons is loaded, the reveal button is
  clicked and the answer is shown.
\<close>

definition revealed_page :: page where
  "revealed_page =
     revealBtn_click_finish (utf16 ''chat'')
       (fst (revealBtn_click
          (loadCard_response (NextCard \<lparr>cardId = 7, buttons = Some [1, 2, 3, 4]\<rparr>)
             (loadCard_enter initial_page))))"

text \<open>
  A second run: card 1 is loaded and the reveal button is clicked; while that handler is
  waiting for the reveal notification, the next button is clicked, card 2 is loaded, its
  reveal button is clicked and its answer is shown. The handler of the first click is
  still waiting.
\<close>

definition racing_page :: page where
  "racing_page =
     revealBtn_click_finish (utf16 ''chien'')
       (fst (revealBtn_click
          (loadCard_response (NextCard \<lparr>cardId = 2, buttons = Some [1, 2, 3, 4]\<rparr>)
             (nextBtn_click
                (fst (revealBtn_click
                   (loadCard_response (NextCard \<lparr>cardId = 1, buttons = Some [1, 2, 3, 4]\<rparr>)
                      (loadCard_enter initial_page))))))))"

section \<open>Reference definitions\<close>

subsection \<open>Edit distance\<close>

text \<open>
  The textbook recursion: the distance to the empty string is the length of the other
  string; otherwise the least of deleting the first character, inserting one, and
  substituting (free when the two first characters agree).
\<close>

fun lev :: "'a list \<Rightarrow> 'a list \<Rightarrow> nat" where
  "lev [] ys = length ys"
| "lev (x # xs) [] = Suc (length xs)"
| "lev (x # xs) (y # ys) =
     min (lev xs (y # ys) + 1)
         (min (lev (x # xs) ys + 1) (lev xs ys + (if x = y then 0 else 1)))"

text \<open>
  \<open>edit xs ys k\<close>: \<open>xs\<close> can be turned into \<open>ys\<close> by single-character deletions,
  insertions and substitutions of total cost \<open>k\<close>, each costing 1.
\<close>

inductive edit :: "'a list \<Rightarrow> 'a list \<Rightarrow> nat \<Rightarrow> bool" where
  edit_Nil: "edit [] [] 0"
| edit_Del: "edit xs ys k \<Longrightarrow> edit (x # xs) ys (Suc k)"
| edit_Ins: "edit xs ys k \<Longrightarrow> edit xs (y # ys) (Suc k)"
| edit_Sub: "edit xs ys k \<Longrightarrow> edit (x # xs) (y # ys) (Suc k)"
| edit_Keep: "edit xs ys k \<Longrightarrow> edit (x # xs) (x # ys) k"

text \<open>Entry \<open>k\<close> of the buffer after \<open>i\<close> rounds of the outer loop.\<close>

definition row :: "'a list \<Rightarrow> 'a list \<Rightarrow> nat \<Rightarrow> nat \<Rightarrow> nat" where
  "row a b i k = lev (take i a) (take k b)"

subsection \<open>Joining spans\<close>

text \<open>
  The rendering rule in words: the spans are joined by a single space, but no space goes
  before a token that is one closing punctuation character, and none after a token that
  is one opening bracket or quote.
\<close>

definition closing_punctuation :: "16 word set" where
  "closing_punctuation = {0x2C, 0x2E, 0x3B, 0x21, 0x3F, 0x29, 0x3A, 0x5D, 0x201D, 0x2019}"

definition opening_bracket :: "16 word set" where
  "opening_bracket = {0x28, 0x7B, 0x201C, 0x2018}"

fun join_spans :: "token list \<Rightarrow> js_string" where
  "join_spans [] = []"
| "join_spans [t] = html t"
| "join_spans (t # u # ts) =
     html t
     @ (if (\<exists>c \<in> closing_punctuation. tok_text u = [c]) \<or>
           (\<exists>c \<in> opening_bracket. tok_text t = [c])
        then [] else utf16 '' '')
     @ join_spans (u # ts)"

text \<open>What the loop pushes before the span of token \<open>i\<close>.\<close>

definition separator :: "token list \<Rightarrow> nat \<Rightarrow> js_string" where
  "separator ts i =
     (if i > 0 \<and> \<not> isPunct (tok_text (ts ! i)) \<and> \<not> isOpening (tok_text (ts ! (i - 1)))
      then utf16 '' '' else [])"

subsection \<open>Normal forms of the normalization\<close>

text \<open>
  A string is collapsed when it consists of class characters and spaces and no space
  follows a space.
\<close>

fun collapsed :: "js_string \<Rightarrow> bool" where
  "collapsed [] = True"
| "collapsed [c] = (keep_unit c \<or> c = 0x20)"
| "collapsed (c # d # cs) = ((keep_unit c \<or> (c = 0x20 \<and> keep_unit d)) \<and> collapsed (d # cs))"

subsection \<open>What is assumed of the platform\<close>

text \<open>
  Four facts of the Unicode character database about the two built-ins.
  \<^item> ASCII characters and the two ligatures U+00E6 and U+0153 have no canonical
    decomposition and are not combining marks: NFD leaves a string of them unchanged.
  \<^item> U+00C7 and U+00E7 have a canonical decomposition (C or c followed by U+0327): no NFD
    string contains them.
  \<^item> ASCII characters other than A to Z and the two ligatures are their own lower case:
    \<open>toLowerCase\<close> leaves a string of them unchanged.
  \<^item> U+00E7 is the lower case of U+00C7 and of itself only.
\<close>

definition nfd_inert :: "16 word \<Rightarrow> bool" where
  "nfd_inert c \<longleftrightarrow> c < 0x80 \<or> c = 0xE6 \<or> c = 0x153"

definition caseless :: "16 word \<Rightarrow> bool" where
  "caseless c \<longleftrightarrow> (c < 0x80 \<and> \<not> (0x41 \<le> c \<and> c \<le> 0x5A)) \<or> c = 0xE6 \<or> c = 0x153"

definition unicode_platform :: "platform \<Rightarrow> bool" where
  "unicode_platform P \<longleftrightarrow>
     (\<forall>s. list_all nfd_inert s \<longrightarrow> normalize_NFD P s = s) \<and>
     (\<forall>s. 0xC7 \<notin> set (normalize_NFD P s) \<and> 0xE7 \<notin> set (normalize_NFD P s)) \<and>
     (\<forall>s. list_all caseless s \<longrightarrow> toLowerCase P s = s) \<and>
     (\<forall>s. 0xE7 \<in> set (toLowerCase P s) \<longrightarrow> 0xE7 \<in> set s \<or> 0xC7 \<in> set s)"

text \<open>
  A concrete platform for running the model: on strings of code units below U+0100 its
  two functions are the built-ins (the canonical decompositions of the Latin-1 letters,
  and the lower case of A to Z and of U+00C0 to U+00DE except the multiplication sign);
  of the other code units only U+0152 is mapped, to U+0153.
\<close>

definition latin1_decomposition :: "(16 word \<times> js_string) list" where
  "latin1_decomposition =
     [
      (0xC0, [0x41, 0x300]), (0xC1, [0x41, 0x301]), (0xC2, [0x41, 0x302]), (0xC3, [0x41, 0x303]),
      (0xC4, [0x41, 0x308]), (0xC5, [0x41, 0x30A]), (0xC7, [0x43, 0x327]), (0xC8, [0x45, 0x300]),
      (0xC9, [0x45, 0x301]), (0xCA, [0x45, 0x302]), (0xCB, [0x45, 0x308]), (0xCC, [0x49, 0x300]),
      (0xCD, [0x49, 0x301]), (0xCE, [0x49, 0x302]), (0xCF, [0x49, 0x308]), (0xD1, [0x4E, 0x303]),
      (0xD2, [0x4F, 0x300]), (0xD3, [0x4F, 0x301]), (0xD4, [0x4F, 0x302]), (0xD5, [0x4F, 0x303]),
      (0xD6, [0x4F, 0x308]), (0xD9, [0x55, 0x300]), (0xDA, [0x55, 0x301]), (0xDB, [0x55, 0x302]),
      (0xDC, [0x55, 0x308]), (0xDD, [0x59, 0x301]), (0xE0, [0x61, 0x300]), (0xE1, [0x61, 0x301]),
      (0xE2, [0x61, 0x302]), (0xE3, [0x61, 0x303]), (0xE4, [0x61, 0x308]), (0xE5, [0x61, 0x30A]),
      (0xE7, [0x63, 0x327]), (0xE8, [0x65, 0x300]), (0xE9, [0x65, 0x301]), (0xEA, [0x65, 0x302]),
      (0xEB, [0x65, 0x308]), (0xEC, [0x69, 0x300]), (0xED, [0x69, 0x301]), (0xEE, [0x69, 0x302]),
      (0xEF, [0x69, 0x308]), (0xF1, [0x6E, 0x303]), (0xF2, [0x6F, 0x300]), (0xF3, [0x6F, 0x301]),
      (0xF4, [0x6F, 0x302]), (0xF5, [0x6F, 0x303]), (0xF6, [0x6F, 0x308]), (0xF9, [0x75, 0x300]),
      (0xFA, [0x75, 0x301]), (0xFB, [0x75, 0x302]), (0xFC, [0x75, 0x308]), (0xFD, [0x79, 0x301]),
      (0xFF, [0x79, 0x308])]"

definition decompose_unit :: "16 word \<Rightarrow> js_string" where
  "decompose_unit c = (case map_of latin1_decomposition c of Some d \<Rightarrow> d | None \<Rightarrow> [c])"

definition lower_unit :: "16 word \<Rightarrow> 16 word" where
  "lower_unit c =
     (if (0x41 \<le> c \<and> c \<le> 0x5A) \<or> (0xC0 \<le> c \<and> c \<le> 0xDE \<and> c \<noteq> 0xD7) then c + 0x20
      else if c = 0x152 then 0x153
      else c)"

definition latin1_host :: platform where
  "latin1_host =
     \<lparr>normalize_NFD = (\<lambda>s. concat (map decompose_unit s)),
      toLowerCase = map lower_unit\<rparr>"

section \<open>Properties of the edit distance\<close>

declare init_loop.simps [simp del] inner_loop.simps [simp del] outer_loop.simps [simp del]

lemma lev_Nil_right: "lev xs [] = length xs"
  by (cases xs) simp_all

lemma edit_Nil_left: "edit [] ys (length ys)"
  by (induction ys) (auto intro: edit.intros)

lemma edit_Nil_right: "edit xs [] (length xs)"
  by (induction xs) (auto intro: edit.intros)

text \<open>The recursion is the cost of some edit script, and no script is cheaper.\<close>

lemma edit_lev: "edit xs ys (lev xs ys)"
proof (induction xs ys rule: lev.induct)
  case (1 ys)
  show ?case by (simp add: edit_Nil_left)
next
  case (2 x xs)
  show ?case using edit_Nil_right [of "x # xs"] by simp
next
  case (3 x xs y ys)
  have d: "edit (x # xs) (y # ys) (lev xs (y # ys) + 1)"
    using "3.IH"(1) by (simp add: edit_Del)
  have i: "edit (x # xs) (y # ys) (lev (x # xs) ys + 1)"
    using "3.IH"(2) by (simp add: edit_Ins)
  have s: "edit (x # xs) (y # ys) (lev xs ys + (if x = y then 0 else 1))"
    using "3.IH"(3) by (auto intro: edit_Sub edit_Keep)
  show ?case
    unfolding lev.simps min_def using d i s by presburger
qed

lemma lev_le_edit: "edit xs ys k \<Longrightarrow> lev xs ys \<le> k"
proof (induction rule: edit.induct)
  case edit_Nil
  show ?case by simp
next
  case (edit_Del xs ys k x)
  show ?case using edit_Del.IH by (cases ys) (auto simp: lev_Nil_right)
next
  case (edit_Ins xs ys k y)
  show ?case using edit_Ins.IH by (cases xs) auto
next
  case (edit_Sub xs ys k x y)
  then show ?case by auto
next
  case (edit_Keep xs ys k x)
  then show ?case by auto
qed

text \<open>Edit scripts can be read backwards, so the distance of the reversed strings is the same.\<close>

lemma edit_snoc_Del: "edit xs ys k \<Longrightarrow> edit (xs @ [x]) ys (Suc k)"
  by (induction rule: edit.induct) (auto intro: edit.intros)

lemma edit_snoc_Ins: "edit xs ys k \<Longrightarrow> edit xs (ys @ [y]) (Suc k)"
  by (induction rule: edit.induct) (auto intro: edit.intros)

lemma edit_snoc_Sub: "edit xs ys k \<Longrightarrow> edit (xs @ [x]) (ys @ [y]) (Suc k)"
  by (induction rule: edit.induct) (auto intro: edit.intros)

lemma edit_snoc_Keep: "edit xs ys k \<Longrightarrow> edit (xs @ [x]) (ys @ [x]) k"
  by (induction rule: edit.induct) (auto intro: edit.intros)

lemma edit_rev: "edit xs ys k \<Longrightarrow> edit (rev xs) (rev ys) k"
  by (induction rule: edit.induct)
     (auto intro: edit.intros edit_snoc_Del edit_snoc_Ins edit_snoc_Sub edit_snoc_Keep)

lemma lev_rev: "lev (rev xs) (rev ys) = lev xs ys"
proof (rule antisym)
  show "lev (rev xs) (rev ys) \<le> lev xs ys"
    by (rule lev_le_edit [OF edit_rev [OF edit_lev]])
  have "lev (rev (rev xs)) (rev (rev ys)) \<le> lev (rev xs) (rev ys)"
    by (rule lev_le_edit [OF edit_rev [OF edit_lev]])
  then show "lev xs ys \<le> lev (rev xs) (rev ys)" by simp
qed

text \<open>Dropping the first character of either string changes the distance by at most one.\<close>

lemma edit_drop_left:
  "edit zs ys k \<Longrightarrow> zs \<noteq> [] \<Longrightarrow> \<exists>k'. k' \<le> Suc k \<and> edit (tl zs) ys k'"
proof (induction rule: edit.induct)
  case edit_Nil
  then show ?case by simp
next
  case (edit_Del xs ys k x)
  show ?case using edit_Del.hyps by (auto intro!: exI [of _ k])
next
  case (edit_Ins xs ys k y)
  then obtain k' where k': "k' \<le> Suc k" "edit (tl xs) ys k'" by blast
  have "Suc k' \<le> Suc (Suc k) \<and> edit (tl xs) (y # ys) (Suc k')"
    using k' edit.edit_Ins [of "tl xs" ys k' y] by simp
  then show ?case by blast
next
  case (edit_Sub xs ys k x y)
  have "Suc k \<le> Suc (Suc k) \<and> edit xs (y # ys) (Suc k)"
    using edit.edit_Ins [OF edit_Sub.hyps, of y] by simp
  then show ?case by (auto intro!: exI [of _ "Suc k"])
next
  case (edit_Keep xs ys k x)
  have "Suc k \<le> Suc k \<and> edit xs (x # ys) (Suc k)"
    using edit.edit_Ins [OF edit_Keep.hyps, of x] by simp
  then show ?case by (auto intro!: exI [of _ "Suc k"])
qed

lemma lev_drop_left: "lev xs ys \<le> Suc (lev (x # xs) ys)"
proof -
  obtain k' where "k' \<le> Suc (lev (x # xs) ys)" "edit xs ys k'"
    using edit_drop_left [OF edit_lev, of "x # xs" ys] by auto
  then show ?thesis using lev_le_edit [of xs ys k'] by simp
qed

lemma lev_sym: "lev xs ys = lev ys xs"
proof (induction xs ys rule: lev.induct)
  case (1 ys)
  show ?case by (cases ys) simp_all
next
  case (2 x xs)
  show ?case by simp
next
  case (3 x xs y ys)
  have "(x = y) = (y = x)" by auto
  with 3 show ?case by (simp add: min.commute min.left_commute)
qed

lemma lev_drop_right: "lev xs ys \<le> Suc (lev xs (y # ys))"
  using lev_drop_left [of ys xs y] by (simp add: lev_sym)

lemma lev_Cons_same: "lev (x # xs) (x # ys) = lev xs ys"
proof -
  have "lev xs ys \<le> lev xs (x # ys) + 1" using lev_drop_right [of xs ys x] by simp
  moreover have "lev xs ys \<le> lev (x # xs) ys + 1" using lev_drop_left [of xs ys x] by simp
  ultimately show ?thesis by (simp add: min_def)
qed

lemma lev_Cons_diff:
  "x \<noteq> y \<Longrightarrow> lev (x # xs) (y # ys) =
     min (lev xs ys + 1) (min (lev xs (y # ys) + 1) (lev (x # xs) ys + 1))"
  by (simp add: min.commute min.left_commute)

lemma lev_snoc_same: "lev (xs @ [x]) (ys @ [x]) = lev xs ys"
  using lev_Cons_same [of x "rev xs" "rev ys"] lev_rev [of "xs @ [x]" "ys @ [x]"]
    lev_rev [of xs ys]
  by simp

lemma lev_snoc_diff:
  assumes "x \<noteq> y"
  shows "lev (xs @ [x]) (ys @ [y]) =
         min (lev xs ys + 1) (min (lev xs (ys @ [y]) + 1) (lev (xs @ [x]) ys + 1))"
proof -
  have "lev (xs @ [x]) (ys @ [y]) = lev (x # rev xs) (y # rev ys)"
    using lev_rev [of "xs @ [x]" "ys @ [y]"] by simp
  also have "\<dots> = min (lev (rev xs) (rev ys) + 1)
      (min (lev (rev xs) (y # rev ys) + 1) (lev (x # rev xs) (rev ys) + 1))"
    by (rule lev_Cons_diff [OF assms])
  also have "lev (rev xs) (rev ys) = lev xs ys" by (rule lev_rev)
  also have "lev (rev xs) (y # rev ys) = lev xs (ys @ [y])"
    using lev_rev [of xs "ys @ [y]"] by simp
  also have "lev (x # rev xs) (rev ys) = lev (xs @ [x]) ys"
    using lev_rev [of "xs @ [x]" ys] by simp
  finally show ?thesis .
qed

lemma lev_le_max: "lev xs ys \<le> max (length xs) (length ys)"
  by (induction xs ys rule: lev.induct) auto

lemma lev_same: "lev xs xs = 0"
  by (induction xs) (simp_all add: lev_Cons_same del: lev.simps(3))

section \<open>The rolling buffer computes the edit distance\<close>

lemma init_loop_row:
  "length dp = n + 1 \<Longrightarrow> \<forall>k<j. dp ! k = k \<Longrightarrow>
   length (init_loop n j dp) = n + 1 \<and> (\<forall>k\<le>n. init_loop n j dp ! k = k)"
proof (induction n j dp rule: init_loop.induct)
  case (1 n j dp)
  show ?case
  proof (cases "j \<le> n")
    case True
    have "\<forall>k<j + 1. dp[j := j] ! k = k"
      using "1.prems" True by (auto simp: nth_list_update)
    then show ?thesis
      using "1.IH" [OF True] "1.prems"(1) True by (simp add: init_loop.simps [of n j dp])
  next
    case False
    then show ?thesis
      using "1.prems" by (auto simp: init_loop.simps [of n j dp])
  qed
qed

lemma row_0_left: "k \<le> length b \<Longrightarrow> row a b 0 k = k"
  by (simp add: row_def)

lemma row_0_right: "i \<le> length a \<Longrightarrow> row a b i 0 = i"
  by (simp add: row_def lev_Nil_right)

lemma row_step:
  assumes "1 \<le> i" "i \<le> length a" "1 \<le> j" "j \<le> length b"
  shows "row a b i j =
     (if a ! (i - 1) = b ! (j - 1) then row a b (i - 1) (j - 1)
      else min (row a b (i - 1) (j - 1) + 1) (min (row a b (i - 1) j + 1) (row a b i (j - 1) + 1)))"
proof -
  have ta: "take i a = take (i - 1) a @ [a ! (i - 1)]"
    using assms(1,2) take_Suc_conv_app_nth [of "i - 1" a] by simp
  have tb: "take j b = take (j - 1) b @ [b ! (j - 1)]"
    using assms(3,4) take_Suc_conv_app_nth [of "j - 1" b] by simp
  show ?thesis
  proof (cases "a ! (i - 1) = b ! (j - 1)")
    case True
    have "row a b i j = lev (take (i - 1) a @ [b ! (j - 1)]) (take (j - 1) b @ [b ! (j - 1)])"
      unfolding row_def using ta tb True by simp
    then show ?thesis using True by (simp add: lev_snoc_same row_def)
  next
    case False
    have "row a b i j = lev (take (i - 1) a @ [a ! (i - 1)]) (take (j - 1) b @ [b ! (j - 1)])"
      unfolding row_def using ta tb by simp
    also have "\<dots> = min (lev (take (i - 1) a) (take (j - 1) b) + 1)
        (min (lev (take (i - 1) a) (take (j - 1) b @ [b ! (j - 1)]) + 1)
             (lev (take (i - 1) a @ [a ! (i - 1)]) (take (j - 1) b) + 1))"
      by (rule lev_snoc_diff [OF False])
    finally show ?thesis
      using False ta [symmetric] tb [symmetric] by (simp add: row_def)
  qed
qed

lemma inner_loop_row:
  assumes "length dp = n + 1" "n = length b" "1 \<le> i" "i \<le> length a" "1 \<le> j"
    and "\<forall>k<j. dp ! k = row a b i k"
    and "\<forall>k. j \<le> k \<and> k \<le> n \<longrightarrow> dp ! k = row a b (i - 1) k"
    and "prev = row a b (i - 1) (j - 1)"
  shows "length (inner_loop a b n i j prev dp) = n + 1 \<and>
         (\<forall>k\<le>n. inner_loop a b n i j prev dp ! k = row a b i k)"
  using assms
proof (induction a b n i j prev dp rule: inner_loop.induct)
  case (1 a b n i j prev dp)
  show ?case
  proof (cases "j \<le> n")
    case False
    have stop: "inner_loop a b n i j prev dp = dp"
      using False by (simp add: inner_loop.simps [of a b n i j prev dp])
    have "\<forall>k\<le>n. k < j" using False by simp
    then show ?thesis
      unfolding stop using "1.prems"(1,6) by simp
  next
    case True
    define v where "v = (if a ! (i - 1) = b ! (j - 1) then prev
                          else min (prev + 1) (min (dp ! j + 1) (dp ! (j - 1) + 1)))"
    define dp' where "dp' = dp[j := v]"
    have dp'_alt: "dp' = (if a ! (i - 1) = b ! (j - 1) then dp[j := prev]
          else dp[j := min (prev + 1) (min (dp ! j + 1) (dp ! (j - 1) + 1))])"
      by (simp add: dp'_def v_def)
    have unfold: "inner_loop a b n i j prev dp = inner_loop a b n i (j + 1) (dp ! j) dp'"
      using True by (simp add: inner_loop.simps [of a b n i j prev dp] dp'_alt Let_def)
    have dpj: "dp ! j = row a b (i - 1) j"
      using "1.prems"(7) True by simp
    have dpj1: "dp ! (j - 1) = row a b i (j - 1)"
      using "1.prems"(5,6) by simp
    have v: "v = row a b i j"
      using row_step [of i a j b] "1.prems"(2,3,4,5,8) True dpj dpj1
      by (simp add: v_def)
    have len: "length dp' = n + 1"
      using "1.prems"(1) by (simp add: dp'_def)
    have new: "\<forall>k<j + 1. dp' ! k = row a b i k"
      using "1.prems"(1,6) True v by (auto simp: dp'_def nth_list_update)
    have old: "\<forall>k. j + 1 \<le> k \<and> k \<le> n \<longrightarrow> dp' ! k = row a b (i - 1) k"
      using "1.prems"(7) by (auto simp: dp'_def nth_list_update)
    have prev': "dp ! j = row a b (i - 1) (j + 1 - 1)"
      using dpj by simp
    have "length (inner_loop a b n i (j + 1) (dp ! j) dp') = n + 1 \<and>
          (\<forall>k\<le>n. inner_loop a b n i (j + 1) (dp ! j) dp' ! k = row a b i k)"
      using "1.IH" [OF True refl dp'_alt len "1.prems"(2,3,4) _ new old prev'] by simp
    then show ?thesis by (simp add: unfold)
  qed
qed

lemma outer_loop_row:
  assumes "length dp = n + 1" "n = length b" "m = length a" "1 \<le> i" "i \<le> m + 1"
    and "\<forall>k\<le>n. dp ! k = row a b (i - 1) k"
  shows "\<forall>k\<le>n. outer_loop a b m n i dp ! k = row a b m k"
  using assms
proof (induction a b m n i dp rule: outer_loop.induct)
  case (1 a b m n i dp)
  show ?case
  proof (cases "i \<le> m")
    case False
    then have "i - 1 = m" using "1.prems"(4,5) by simp
    then show ?thesis
      using False "1.prems"(6) by (simp add: outer_loop.simps [of a b m n i dp])
  next
    case True
    define dp0 where "dp0 = dp[0 := i]"
    define dp1 where "dp1 = inner_loop a b n i 1 (dp ! 0) dp0"
    have unfold: "outer_loop a b m n i dp = outer_loop a b m n (i + 1) dp1"
      using True by (simp add: outer_loop.simps [of a b m n i dp] dp0_def dp1_def Let_def)
    have len0: "length dp0 = n + 1" using "1.prems"(1) by (simp add: dp0_def)
    have new: "\<forall>k<1. dp0 ! k = row a b i k"
      using "1.prems"(1,3) True by (simp add: dp0_def row_0_right)
    have old: "\<forall>k. 1 \<le> k \<and> k \<le> n \<longrightarrow> dp0 ! k = row a b (i - 1) k"
      using "1.prems"(6) by (auto simp: dp0_def)
    have prev: "dp ! 0 = row a b (i - 1) (1 - 1)"
      using "1.prems"(6) by simp
    have ile: "i \<le> length a" using True "1.prems"(3) by simp
    have inner: "length dp1 = n + 1 \<and> (\<forall>k\<le>n. dp1 ! k = row a b i k)"
      unfolding dp1_def
      by (rule inner_loop_row [OF len0 "1.prems"(2,4) ile order_refl new old prev])
    have "\<forall>k\<le>n. outer_loop a b m n (i + 1) dp1 ! k = row a b m k"
      using "1.IH" [OF True refl refl] inner "1.prems"(2,3) True
      by (simp add: dp1_def dp0_def)
    then show ?thesis by (simp add: unfold)
  qed
qed

text \<open>The value returned is the last entry of the last row.\<close>

lemma levenshtein_row: "levenshtein a b = row a b (length a) (length b)"
proof (cases "a = [] \<or> b = []")
  case True
  then show ?thesis by (auto simp: levenshtein_def Let_def row_def lev_Nil_right)
next
  case False
  define n where "n = length b"
  define dp where "dp = init_loop n 0 (replicate (n + 1) 0)"
  have init: "length dp = n + 1 \<and> (\<forall>k\<le>n. dp ! k = k)"
    unfolding dp_def by (rule init_loop_row) simp_all
  then have r0: "\<forall>k\<le>n. dp ! k = row a b (1 - 1) k"
    by (simp add: row_0_left n_def)
  have "\<forall>k\<le>n. outer_loop a b (length a) n 1 dp ! k = row a b (length a) k"
    by (rule outer_loop_row [OF _ n_def refl _ _ r0]) (use init in simp_all)
  then have "outer_loop a b (length a) n 1 dp ! n = row a b (length a) n"
    by simp
  then show ?thesis
    using False by (simp add: levenshtein_def Let_def dp_def n_def)
qed

lemma row_full: "row a b (length a) (length b) = lev a b"
  by (simp add: row_def)

lemma levenshtein_eq_lev: "levenshtein a b = lev a b"
  by (simp only: levenshtein_row row_full)

lemma levenshtein_le_max: "levenshtein a b \<le> max (length a) (length b)"
  by (simp add: levenshtein_eq_lev lev_le_max)

lemma similarityScore_unfold:
  "similarityScore P expected actual =
     (if normalizeForCompare P expected = [] \<or> normalizeForCompare P actual = [] then 0
      else 1 - real (levenshtein (normalizeForCompare P expected) (normalizeForCompare P actual))
               / real (max (length (normalizeForCompare P expected))
                           (length (normalizeForCompare P actual))))"
  by (auto simp: similarityScore_def Let_def)

section \<open>Properties of the token rendering\<close>

declare forEach_loop.simps [simp del]

lemma isPunct_iff: "isPunct t \<longleftrightarrow> (\<exists>c \<in> closing_punctuation. t = [c])"
  by (auto simp: isPunct_def closing_punctuation_def split: list.splits)

lemma isOpening_iff: "isOpening t \<longleftrightarrow> (\<exists>c \<in> opening_bracket. t = [c])"
  by (auto simp: isOpening_def opening_bracket_def split: list.splits)

lemma forEach_loop_step:
  "idx < length ts \<Longrightarrow>
   forEach_loop ts idx parts =
     forEach_loop ts (idx + 1) (parts @ (if separator ts idx = [] then [] else [utf16 '' '']) @ [html (ts ! idx)])"
  by (subst forEach_loop.simps) (auto simp: Let_def separator_def utf16_def)

lemma forEach_loop_stop: "\<not> idx < length ts \<Longrightarrow> forEach_loop ts idx parts = parts"
  by (subst forEach_loop.simps) simp

lemma concat_forEach_loop:
  "concat (forEach_loop ts idx parts) =
     concat parts @ concat (map (\<lambda>i. separator ts i @ html (ts ! i)) [idx..<length ts])"
proof (induction "length ts - idx" arbitrary: idx parts)
  case 0
  then show ?case by (simp add: forEach_loop_stop)
next
  case (Suc k)
  then have lt: "idx < length ts" and k: "k = length ts - (idx + 1)" by simp_all
  have sep: "concat (if separator ts idx = [] then [] else [utf16 '' '']) = separator ts idx"
    by (simp add: separator_def)
  have "concat (forEach_loop ts idx parts) =
        concat (parts @ (if separator ts idx = [] then [] else [utf16 '' '']) @ [html (ts ! idx)])
        @ concat (map (\<lambda>i. separator ts i @ html (ts ! i)) [idx + 1..<length ts])"
    unfolding forEach_loop_step [OF lt] by (rule Suc.hyps(1) [OF k])
  also have "\<dots> = concat parts @ (separator ts idx @ html (ts ! idx))
        @ concat (map (\<lambda>i. separator ts i @ html (ts ! i)) [idx + 1..<length ts])"
    unfolding concat_append sep by simp
  also have "\<dots> = concat parts
        @ concat (map (\<lambda>i. separator ts i @ html (ts ! i)) [idx..<length ts])"
    using lt by (simp add: upt_conv_Cons del: upt_Suc)
  finally show ?case .
qed

lemma renderTokens_pieces:
  "renderTokens (Some ts) = concat (map (\<lambda>i. separator ts i @ html (ts ! i)) [0..<length ts])"
  by (simp add: renderTokens_def concat_forEach_loop)


lemma join_spans_pieces:
  "idx < length ts \<Longrightarrow>
   separator ts idx @ join_spans (drop idx ts) =
     concat (map (\<lambda>i. separator ts i @ html (ts ! i)) [idx..<length ts])"
proof (induction "length ts - idx" arbitrary: idx)
  case 0
  then show ?case by simp
next
  case (Suc k)
  then have lt: "idx < length ts" and k: "k = length ts - Suc idx" by simp_all
  have u: "[idx..<length ts] = idx # [Suc idx..<length ts]"
    using lt by (simp add: upt_conv_Cons)
  show ?case
  proof (cases "Suc idx < length ts")
    case False
    then have "drop idx ts = [ts ! idx]"
      using lt by (metis Cons_nth_drop_Suc drop_all not_less)
    moreover have "[Suc idx..<length ts] = []"
      using False by simp
    ultimately show ?thesis unfolding u by (simp only: list.map concat.simps join_spans.simps append_Nil2)
  next
    case True
    have d: "drop idx ts = ts ! idx # ts ! Suc idx # drop (Suc (Suc idx)) ts"
      using lt True by (simp add: Cons_nth_drop_Suc)
    have d': "drop (Suc idx) ts = ts ! Suc idx # drop (Suc (Suc idx)) ts"
      using True by (simp add: Cons_nth_drop_Suc)
    have "join_spans (drop idx ts) =
          html (ts ! idx) @ (separator ts (Suc idx) @ join_spans (drop (Suc idx) ts))"
      unfolding d d' by (simp add: separator_def isPunct_iff isOpening_iff)
    also have "separator ts (Suc idx) @ join_spans (drop (Suc idx) ts) =
       concat (map (\<lambda>i. separator ts i @ html (ts ! i)) [Suc idx..<length ts])"
      by (rule Suc.hyps(1) [OF k True])
    finally show ?thesis
      unfolding u by simp
  qed
qed

lemma renderTokens_join_spans: "renderTokens (Some ts) = join_spans ts"
proof (cases ts)
  case Nil
  then show ?thesis by (simp add: renderTokens_def)
next
  case (Cons t ts')
  then have "0 < length ts" by simp
  from join_spans_pieces [OF this] show ?thesis
    by (simp add: renderTokens_pieces separator_def)
qed

section \<open>Properties of the normalization\<close>

lemma keep_not_space: "keep_unit c \<Longrightarrow> c \<noteq> 0x20"
  by (auto simp: keep_unit_def)

lemma collapse_hd_keep: "keep_unit c \<Longrightarrow> collapse (c # cs) = c # collapse cs"
  by simp

lemma dropWhile_keep_hd: "dropWhile (\<lambda>u. \<not> keep_unit u) cs = d # ds \<Longrightarrow> keep_unit d"
  using hd_dropWhile [of "\<lambda>u. \<not> keep_unit u" cs] by simp

lemma collapsed_collapse: "collapsed (collapse s)"
proof (induction s rule: collapse.induct)
  case 1
  show ?case by simp
next
  case (2 c cs)
  show ?case
  proof (cases "keep_unit c")
    case True
    then show ?thesis using "2.IH"(1) by (cases "collapse cs") simp_all
  next
    case False
    show ?thesis
    proof (cases "dropWhile (\<lambda>u. \<not> keep_unit u) cs")
      case Nil
      have "collapse (c # cs) = [0x20]"
        using False by (simp add: Nil del: dropWhile_eq_Nil_conv)
      then show ?thesis by simp
    next
      case (Cons d ds)
      have k: "keep_unit d" by (rule dropWhile_keep_hd [OF Cons])
      have "collapsed (d # collapse ds)" using "2.IH"(2) [OF False] Cons k by simp
      moreover have "collapse (c # cs) = 0x20 # d # collapse ds"
        using False k by (simp add: Cons)
      ultimately show ?thesis using k by simp
    qed
  qed
qed

lemma collapse_fixed: "collapsed s \<Longrightarrow> collapse s = s"
proof (induction s rule: collapsed.induct)
  case 1
  show ?case by simp
next
  case (2 c)
  then show ?case by auto
next
  case (3 c d cs)
  then show ?case by auto
qed

lemma collapsed_tl: "collapsed (c # cs) \<Longrightarrow> collapsed cs"
  by (cases cs) simp_all

lemma collapsed_dropWhile: "collapsed s \<Longrightarrow> collapsed (dropWhile Q s)"
  by (induction s) (auto dest: collapsed_tl)

lemma collapsed_butlast: "collapsed (xs @ [x]) \<Longrightarrow> collapsed xs"
proof (induction xs rule: collapsed.induct)
  case 1
  show ?case by simp
next
  case (2 c)
  then show ?case by auto
next
  case (3 c d cs)
  then show ?case by auto
qed

lemma collapsed_trim_right: "collapsed s \<Longrightarrow> collapsed (rev (dropWhile Q (rev s)))"
proof (induction s rule: rev_induct)
  case Nil
  show ?case by simp
next
  case (snoc x xs)
  then show ?case by (auto dest: collapsed_butlast)
qed

lemma collapsed_js_trim: "collapsed s \<Longrightarrow> collapsed (js_trim s)"
  unfolding js_trim_def by (intro collapsed_trim_right collapsed_dropWhile)

lemma js_trim_idem: "js_trim (js_trim s) = js_trim s"
proof -
  define t where "t = dropWhile is_ws s"
  have hd_t: "t \<noteq> [] \<Longrightarrow> \<not> is_ws (hd t)"
    unfolding t_def using hd_dropWhile [of is_ws s] by simp
  define r where "r = rev (dropWhile is_ws (rev t))"
  have r: "js_trim s = r" by (simp add: js_trim_def r_def t_def)
  have last_r: "r \<noteq> [] \<Longrightarrow> \<not> is_ws (last r)"
    unfolding r_def using hd_dropWhile [of is_ws "rev t"] by (simp add: last_rev)
  have "\<exists>k. r = take k t"
    unfolding r_def by (metis dropWhile_eq_drop rev_drop rev_rev_ident rev_swap)
  then obtain k where k: "r = take k t" by blast
  have hd_r: "r \<noteq> [] \<Longrightarrow> \<not> is_ws (hd r)"
    using hd_t k by (cases t; cases k) auto
  have 1: "dropWhile is_ws r = r"
    using hd_r by (cases r) auto
  have 2: "dropWhile is_ws (rev r) = rev r"
    using last_r by (cases "rev r") (auto simp: last_rev [symmetric] hd_rev)
  show ?thesis
    unfolding r by (simp add: js_trim_def 1 2)
qed

lemma set_collapse: "set (collapse s) \<subseteq> insert 0x20 (set s)"
proof (induction s rule: collapse.induct)
  case 1
  show ?case by simp
next
  case (2 c cs)
  show ?case
  proof (cases "keep_unit c")
    case True
    then show ?thesis using "2.IH"(1) by auto
  next
    case False
    have "set (dropWhile (\<lambda>u. \<not> keep_unit u) cs) \<subseteq> set cs"
      by (rule set_dropWhileD [THEN subsetI])
    then show ?thesis using False "2.IH"(2) [OF False] by auto
  qed
qed

lemma set_js_trim: "set (js_trim s) \<subseteq> set s"
  unfolding js_trim_def
  by (auto dest!: set_dropWhileD)

lemma collapsed_units: "collapsed s \<Longrightarrow> c \<in> set s \<Longrightarrow> keep_unit c \<or> c = 0x20"
  by (induction s rule: collapsed.induct) auto

lemma latin1_keys: "(k, d) \<in> set latin1_decomposition \<Longrightarrow> 0xC0 \<le> k \<and> k \<le> 0xFF \<and> k \<noteq> 0xE6"
  unfolding latin1_decomposition_def by (simp, elim disjE) simp_all

lemma latin1_values:
  "(k, d) \<in> set latin1_decomposition \<Longrightarrow> 0xC7 \<notin> set d \<and> 0xE7 \<notin> set d"
  unfolding latin1_decomposition_def by (simp, elim disjE) simp_all

lemma decompose_inert: "nfd_inert c \<Longrightarrow> decompose_unit c = [c]"
proof -
  assume i: "nfd_inert c"
  have "map_of latin1_decomposition c = None"
  proof (cases "map_of latin1_decomposition c")
    case None
    then show ?thesis .
  next
    case (Some d)
    then have "0xC0 \<le> c \<and> c \<le> 0xFF \<and> c \<noteq> 0xE6"
      using latin1_keys [OF map_of_SomeD] by blast
    then show ?thesis using i unfolding nfd_inert_def by unat_arith
  qed
  then show ?thesis by (simp add: decompose_unit_def)
qed

lemma decompose_no_cedilla: "0xC7 \<notin> set (decompose_unit c) \<and> 0xE7 \<notin> set (decompose_unit c)"
proof (cases "map_of latin1_decomposition c")
  case None
  have "map_of latin1_decomposition 0xC7 \<noteq> None" "map_of latin1_decomposition 0xE7 \<noteq> None"
    by (simp_all add: latin1_decomposition_def)
  then have "c \<noteq> 0xC7" "c \<noteq> 0xE7" using None by auto
  then show ?thesis using None by (simp add: decompose_unit_def)
next
  case (Some d)
  then show ?thesis
    using latin1_values [OF map_of_SomeD [OF Some]] by (simp add: decompose_unit_def)
qed

lemma lower_unit_caseless: "caseless c \<Longrightarrow> lower_unit c = c"
  unfolding caseless_def lower_unit_def by unat_arith

lemma lower_unit_cedilla: "lower_unit c = 0xE7 \<Longrightarrow> c = 0xE7 \<or> c = 0xC7"
  unfolding lower_unit_def by (auto split: if_splits)

lemma latin1_host_unicode: "unicode_platform latin1_host"
proof -
  have 1: "list_all nfd_inert s \<Longrightarrow> concat (map decompose_unit s) = s" for s
    by (induction s) (simp_all add: decompose_inert)
  have 2: "0xC7 \<notin> set (concat (map decompose_unit s)) \<and> 0xE7 \<notin> set (concat (map decompose_unit s))" for s
    using decompose_no_cedilla by auto
  have 3: "list_all caseless s \<Longrightarrow> map lower_unit s = s" for s
    by (induction s) (simp_all add: lower_unit_caseless)
  have 4: "0xE7 \<in> set (map lower_unit s) \<Longrightarrow> 0xE7 \<in> set s \<or> 0xC7 \<in> set s" for s
  proof -
    assume "0xE7 \<in> set (map lower_unit s)"
    then obtain c where c: "c \<in> set s" "lower_unit c = 0xE7" by auto
    then show ?thesis using lower_unit_cedilla [of c] by auto
  qed
  show ?thesis
    unfolding unicode_platform_def latin1_host_def using 1 2 3 4 by simp
qed

lemma keep_unit_inert: "keep_unit c \<or> c = 0x20 \<Longrightarrow> c \<noteq> 0xE7 \<Longrightarrow>
  nfd_inert c \<and> caseless c \<and> \<not> (0x300 \<le> c \<and> c \<le> 0x36F)"
  unfolding keep_unit_def nfd_inert_def caseless_def by unat_arith

lemma normalizeForCompare_no_cedilla:
  assumes "unicode_platform P"
  shows "0xE7 \<notin> set (normalizeForCompare P x)"
proof
  assume a: "0xE7 \<in> set (normalizeForCompare P x)"
  define n where "n = normalize_NFD P x"
  define t where "t = toLowerCase P (strip_marks n)"
  have "set (normalizeForCompare P x) \<subseteq> insert 0x20 (set t)"
    unfolding normalizeForCompare_def t_def n_def
    using set_js_trim set_collapse by blast
  then have "0xE7 \<in> set t" using a by auto
  then have "0xE7 \<in> set (strip_marks n) \<or> 0xC7 \<in> set (strip_marks n)"
    using assms unfolding t_def unicode_platform_def by blast
  then have "0xE7 \<in> set n \<or> 0xC7 \<in> set n"
    by (auto simp: strip_marks_def)
  then show False
    using assms unfolding n_def unicode_platform_def by blast
qed

section \<open>Running the model on concrete strings\<close>

lemmas host_eval =
  normalizeForCompare_def latin1_host_def decompose_unit_def latin1_decomposition_def
  lower_unit_def strip_marks_def keep_unit_def js_trim_def is_ws_def utf16_def

lemma js_trim_no_ws: "\<forall>c \<in> set s. \<not> is_ws c \<Longrightarrow> js_trim s = s"
proof -
  assume a: "\<forall>c \<in> set s. \<not> is_ws c"
  have 1: "dropWhile is_ws s = s" using a by (cases s) auto
  have 2: "dropWhile is_ws (rev s) = rev s"
    using a by (cases "rev s") (auto dest: arg_cong [of _ _ set])
  show ?thesis by (simp add: js_trim_def 1 2)
qed

lemma collapse_all_keep: "\<forall>c \<in> set s. keep_unit c \<Longrightarrow> collapse s = s"
  by (induction s) simp_all

lemma lowercase_letter_facts:
  "0x61 \<le> c \<and> c \<le> 0x7A \<Longrightarrow>
   nfd_inert c \<and> caseless c \<and> keep_unit c \<and> \<not> is_ws c \<and> \<not> (0x300 \<le> c \<and> c \<le> 0x36F)"
  unfolding nfd_inert_def caseless_def keep_unit_def is_ws_def by unat_arith

text \<open>A word of lower-case ASCII letters is its own normal form.\<close>

lemma normalize_lowercase_word:
  assumes "unicode_platform P" and "\<forall>c \<in> set s. 0x61 \<le> c \<and> c \<le> 0x7A"
  shows "normalizeForCompare P s = s"
proof -
  have f: "\<forall>c \<in> set s. nfd_inert c \<and> caseless c \<and> keep_unit c \<and> \<not> is_ws c
            \<and> \<not> (0x300 \<le> c \<and> c \<le> 0x36F)"
    using assms(2) lowercase_letter_facts by blast
  have 1: "normalize_NFD P s = s"
    using assms(1) f unfolding unicode_platform_def by (simp add: list_all_iff)
  have 2: "strip_marks s = s"
    unfolding strip_marks_def using f by (simp add: filter_id_conv)
  have 3: "toLowerCase P s = s"
    using assms(1) f unfolding unicode_platform_def by (simp add: list_all_iff)
  have 4: "collapse s = s" using f by (simp add: collapse_all_keep)
  have 5: "js_trim s = s" using f by (simp add: js_trim_no_ws)
  show ?thesis by (simp add: normalizeForCompare_def 1 2 3 4 5)
qed

lemma normalize_chat: "unicode_platform P \<Longrightarrow> normalizeForCompare P (utf16 ''chat'') = utf16 ''chat''"
  by (rule normalize_lowercase_word) (simp_all add: utf16_def)

lemma normalize_chien: "unicode_platform P \<Longrightarrow> normalizeForCompare P (utf16 ''chien'') = utf16 ''chien''"
  by (rule normalize_lowercase_word) (simp_all add: utf16_def)

lemma normalize_chats: "unicode_platform P \<Longrightarrow> normalizeForCompare P (utf16 ''chats'') = utf16 ''chats''"
  by (rule normalize_lowercase_word) (simp_all add: utf16_def)

text \<open>Running the three loops of \<open>levenshtein\<close> on two pairs of words.\<close>

lemma distance_chat_chats: "levenshtein (utf16 ''chat'') (utf16 ''chats'') = 1"
  by code_simp

lemma distance_chat_chien: "levenshtein (utf16 ''chat'') (utf16 ''chien'') = 3"
  by code_simp

lemma word_chat_nonempty:
  "utf16 ''chat'' \<noteq> []" "utf16 ''chats'' \<noteq> []" "utf16 ''chien'' \<noteq> []"
  by (simp_all add: utf16_def)

lemma word_chat_length:
  "length (utf16 ''chat'') = 4" "length (utf16 ''chats'') = 5" "length (utf16 ''chien'') = 5"
  by (simp_all add: utf16_def)

lemma trim_chats:
  "js_trim (utf16 ''chats'') = utf16 ''chats''" "js_trim (utf16 '' '') = []"
  "js_trim (utf16 ''chat'') = utf16 ''chat''" "js_trim (utf16 ''chien'') = utf16 ''chien''"
  by (simp_all add: js_trim_def is_ws_def utf16_def)

lemma normalize_digits: "normalizeForCompare latin1_host (utf16 ''42'') = []"
  by (simp add: host_eval)

section \<open>Claims about the scorer\<close>

text \<open>
  C1. For every pair of strings, \<open>similarityScore(expected, actual)\<close> is 1 minus the
  Levenshtein distance of the two normalized strings divided by the larger of their
  lengths, and it is 0 whenever either normalized string is empty. (The quotient exists
  unless both normalized strings are empty, which the second part covers.)
\<close>

theorem similarityScore_formula:
  "(normalizeForCompare P expected = [] \<or> normalizeForCompare P actual = [] \<longrightarrow>
      similarityScore P expected actual = 0) \<and>
   (0 < max (length (normalizeForCompare P expected)) (length (normalizeForCompare P actual)) \<longrightarrow>
      similarityScore P expected actual =
        1 - real (levenshtein (normalizeForCompare P expected) (normalizeForCompare P actual))
            / real (max (length (normalizeForCompare P expected))
                        (length (normalizeForCompare P actual))))"
proof -
  define E where "E = normalizeForCompare P expected"
  define A where "A = normalizeForCompare P actual"
  have zero: "E = [] \<or> A = [] \<Longrightarrow> similarityScore P expected actual = 0"
    by (auto simp: similarityScore_unfold E_def A_def)
  have quot: "similarityScore P expected actual =
                1 - real (levenshtein E A) / real (max (length E) (length A))"
    if pos: "0 < max (length E) (length A)"
  proof (cases "E = [] \<or> A = []")
    case False
    then show ?thesis by (simp add: similarityScore_unfold E_def A_def)
  next
    case True
    then have "levenshtein E A = max (length E) (length A)"
      by (auto simp: levenshtein_eq_lev lev_Nil_right)
    moreover have "real k / real k = 1" if "0 < k" for k :: nat
      using that by simp
    ultimately have "real (levenshtein E A) / real (max (length E) (length A)) = 1"
      using pos by metis
    then show ?thesis using zero [OF True] by (simp only: diff_self)
  qed
  show ?thesis using zero quot unfolding E_def A_def by blast
qed

theorem similarityScore_formula_witness:
  "normalizeForCompare latin1_host (utf16 ''42'') = [] \<and>
   similarityScore latin1_host (utf16 ''42'') (utf16 ''chat'') = 0 \<and>
   0 < max (length (normalizeForCompare latin1_host (utf16 ''chat'')))
           (length (normalizeForCompare latin1_host (utf16 ''chats''))) \<and>
   similarityScore latin1_host (utf16 ''chat'') (utf16 ''chats'') = 4 / 5"
proof -
  have h: "unicode_platform latin1_host" by (rule latin1_host_unicode)
  have len: "length (utf16 ''chat'') = 4" "length (utf16 ''chats'') = 5"
    by (simp_all add: utf16_def)
  show ?thesis
    using similarityScore_formula [of latin1_host "utf16 ''42''" "utf16 ''chat''"]
      similarityScore_formula [of latin1_host "utf16 ''chat''" "utf16 ''chats''"]
      word_chat_nonempty
    by (simp add: normalize_digits normalize_chat [OF h] normalize_chats [OF h]
        distance_chat_chats len)
qed

text \<open>
  C2. For every pair of strings, the single-row rolling-buffer implementation
  \<open>levenshtein\<close> (a buffer of length \<open>len(b) + 1\<close>) returns exactly the classic edit distance
  with insertion, deletion and substitution at cost 1 each: the value of the textbook
  recursion \<open>lev\<close>, which by \<open>edit_lev\<close> and \<open>lev_le_edit\<close> is the least cost of an edit
  script.
\<close>

theorem levenshtein_refines_lev: "levenshtein a b = lev a b"
proof -
  have "levenshtein a b = row a b (length a) (length b)"
    by (rule levenshtein_row)
  also have "\<dots> = lev (take (length a) a) (take (length b) b)"
    by (simp only: row_def)
  finally show ?thesis by simp
qed

text \<open>
  C3, as stated: for every ASCII string \<open>a\<close> the score of the pair \<open>(a, a)\<close> is 1. The string
  "42" is ASCII and normalizes to the empty string, so its score is 0.
\<close>

theorem similarityScore_self_digits:
  "similarityScore latin1_host (utf16 ''42'') (utf16 ''42'') \<noteq> 1"
  by (simp add: similarityScore_unfold normalize_digits)

text \<open>
  C3, amended. For every string \<open>a\<close>, ASCII or not, whose normalized form is not empty, the
  score of the pair \<open>(a, a)\<close> is 1; when the normalized form of \<open>a\<close> is empty, the score is 0.
\<close>

theorem similarityScore_self:
  "(normalizeForCompare P a \<noteq> [] \<longrightarrow> similarityScore P a a = 1) \<and>
   (normalizeForCompare P a = [] \<longrightarrow> similarityScore P a a = 0)"
  by (simp add: similarityScore_unfold levenshtein_eq_lev lev_same)

theorem similarityScore_self_witness:
  "normalizeForCompare latin1_host (utf16 ''chat'') \<noteq> [] \<and>
   similarityScore latin1_host (utf16 ''chat'') (utf16 ''chat'') = 1 \<and>
   normalizeForCompare latin1_host (utf16 ''42'') = [] \<and>
   similarityScore latin1_host (utf16 ''42'') (utf16 ''42'') = 0"
  using similarityScore_self [of latin1_host "utf16 ''chat''"]
    similarityScore_self [of latin1_host "utf16 ''42''"] word_chat_nonempty
  by (simp add: normalize_digits normalize_chat [OF latin1_host_unicode])

text \<open>
  C4, as stated: whenever the recognized text is empty, the fixed "no valid text" message
  is produced. In a browser without \<open>SpeechRecognition\<close> nothing is ever recognized, the
  recognized text is empty, and the function writes the "not supported" message instead.
\<close>

theorem feedback_without_recognizer:
  "js_trim (js_join (utf16 '' '') []) = [] \<and>
   map_option feedbackBox
     (evaluatePronunciation latin1_host False
        (Some \<lparr>fr_cardId = 1, fr_sentence = Some (utf16 ''chat'')\<rparr>) [])
     = Some Unsupported \<and>
   Unsupported \<noteq> NoValidText"
  by (simp add: evaluatePronunciation_def js_trim_def)

text \<open>
  C4, amended. In a browser that offers speech recognition, with a current card: when the
  recognized text (the segments joined by spaces, trimmed) is not empty, the feedback is
  the "very close" message for a score of at least 0.85, the "decent" message for a score
  from 0.60 up to but excluding 0.85, and the "large deviation" message for a score below
  0.60; when the recognized text is empty, the feedback is the fixed "no valid text"
  message whatever the score would be. For the expected sentence "chat" and the recognized
  text "chats" the distance is 1, the larger length is 5, the score is 0.8 and the feedback
  is the "decent" message. In a browser without speech recognition the feedback is the
  fixed "not supported" message, whatever the segments; without a current card the
  function writes nothing.
\<close>

theorem evaluatePronunciation_tiers:
  "(let actual = js_trim (js_join (utf16 '' '') segments);
        score = similarityScore P (case fr_sentence c of None \<Rightarrow> [] | Some s \<Rightarrow> s) actual;
        shown = map_option feedbackBox (evaluatePronunciation P True (Some c) segments) in
    (actual \<noteq> [] \<and> 85 / 100 \<le> score \<longrightarrow> shown = Some VeryClose) \<and>
    (actual \<noteq> [] \<and> 60 / 100 \<le> score \<and> score < 85 / 100 \<longrightarrow> shown = Some Decent) \<and>
    (actual \<noteq> [] \<and> score < 60 / 100 \<longrightarrow> shown = Some LargeDeviation) \<and>
    (actual = [] \<longrightarrow> shown = Some NoValidText)) \<and>
   map_option feedbackBox (evaluatePronunciation P False (Some c) segments) = Some Unsupported \<and>
   evaluatePronunciation P speechRecognition None segments = None \<and>
   (unicode_platform P \<longrightarrow>
      levenshtein (normalizeForCompare P (utf16 ''chat''))
                  (normalizeForCompare P (utf16 ''chats'')) = 1 \<and>
      max (length (normalizeForCompare P (utf16 ''chat'')))
          (length (normalizeForCompare P (utf16 ''chats''))) = 5 \<and>
      similarityScore P (utf16 ''chat'') (utf16 ''chats'') = 8 / 10 \<and>
      map_option feedbackBox
        (evaluatePronunciation P True (Some \<lparr>fr_cardId = n, fr_sentence = Some (utf16 ''chat'')\<rparr>)
           [utf16 ''chats'']) = Some Decent)"
proof (intro conjI impI)
  show "let actual = js_trim (js_join (utf16 '' '') segments);
        score = similarityScore P (case fr_sentence c of None \<Rightarrow> [] | Some s \<Rightarrow> s) actual;
        shown = map_option feedbackBox (evaluatePronunciation P True (Some c) segments) in
    (actual \<noteq> [] \<and> 85 / 100 \<le> score \<longrightarrow> shown = Some VeryClose) \<and>
    (actual \<noteq> [] \<and> 60 / 100 \<le> score \<and> score < 85 / 100 \<longrightarrow> shown = Some Decent) \<and>
    (actual \<noteq> [] \<and> score < 60 / 100 \<longrightarrow> shown = Some LargeDeviation) \<and>
    (actual = [] \<longrightarrow> shown = Some NoValidText)"
    by (simp add: evaluatePronunciation_def Let_def)
next
  show "map_option feedbackBox (evaluatePronunciation P False (Some c) segments)
          = Some Unsupported"
    by (simp add: evaluatePronunciation_def)
next
  show "evaluatePronunciation P speechRecognition None segments = None"
    by (simp add: evaluatePronunciation_def)
next
  assume h: "unicode_platform P"
  have score: "similarityScore P (utf16 ''chat'') (utf16 ''chats'') = 8 / 10"
    using word_chat_nonempty
    by (simp add: similarityScore_unfold normalize_chat [OF h] normalize_chats [OF h]
        distance_chat_chats word_chat_length)
  show "levenshtein (normalizeForCompare P (utf16 ''chat''))
                  (normalizeForCompare P (utf16 ''chats'')) = 1"
    by (simp add: normalize_chat [OF h] normalize_chats [OF h] distance_chat_chats)
  show "max (length (normalizeForCompare P (utf16 ''chat'')))
          (length (normalizeForCompare P (utf16 ''chats''))) = 5"
    by (simp add: normalize_chat [OF h] normalize_chats [OF h] word_chat_length)
  show "similarityScore P (utf16 ''chat'') (utf16 ''chats'') = 8 / 10"
    by (rule score)
  show "map_option feedbackBox
        (evaluatePronunciation P True (Some \<lparr>fr_cardId = n, fr_sentence = Some (utf16 ''chat'')\<rparr>)
           [utf16 ''chats'']) = Some Decent"
    unfolding evaluatePronunciation_def
    by (simp add: trim_chats word_chat_nonempty score Let_def)
qed

theorem evaluatePronunciation_tiers_witness:
  "unicode_platform latin1_host \<and>
   js_trim (js_join (utf16 '' '') [utf16 ''chat'']) \<noteq> [] \<and>
   85 / 100 \<le> similarityScore latin1_host (utf16 ''chat'') (utf16 ''chat'') \<and>
   map_option feedbackBox
     (evaluatePronunciation latin1_host True
        (Some \<lparr>fr_cardId = 1, fr_sentence = Some (utf16 ''chat'')\<rparr>) [utf16 ''chat''])
     = Some VeryClose \<and>
   js_trim (js_join (utf16 '' '') [utf16 ''chats'']) \<noteq> [] \<and>
   60 / 100 \<le> similarityScore latin1_host (utf16 ''chat'') (utf16 ''chats'') \<and>
   similarityScore latin1_host (utf16 ''chat'') (utf16 ''chats'') < 85 / 100 \<and>
   map_option feedbackBox
     (evaluatePronunciation latin1_host True
        (Some \<lparr>fr_cardId = 1, fr_sentence = Some (utf16 ''chat'')\<rparr>) [utf16 ''chats''])
     = Some Decent \<and>
   js_trim (js_join (utf16 '' '') [utf16 ''chien'']) \<noteq> [] \<and>
   similarityScore latin1_host (utf16 ''chat'') (utf16 ''chien'') < 60 / 100 \<and>
   map_option feedbackBox
     (evaluatePronunciation latin1_host True
        (Some \<lparr>fr_cardId = 1, fr_sentence = Some (utf16 ''chat'')\<rparr>) [utf16 ''chien''])
     = Some LargeDeviation \<and>
   js_trim (js_join (utf16 '' '') [utf16 '' '']) = [] \<and>
   map_option feedbackBox
     (evaluatePronunciation latin1_host True
        (Some \<lparr>fr_cardId = 1, fr_sentence = Some (utf16 ''chat'')\<rparr>) [utf16 '' ''])
     = Some NoValidText"
proof -
  have h: "unicode_platform latin1_host" by (rule latin1_host_unicode)
  have s1: "similarityScore latin1_host (utf16 ''chat'') (utf16 ''chat'') = 1"
    using word_chat_nonempty
    by (simp add: similarityScore_unfold normalize_chat [OF h] levenshtein_eq_lev lev_same)
  have s2: "similarityScore latin1_host (utf16 ''chat'') (utf16 ''chien'') = 2 / 5"
    using word_chat_nonempty
    by (simp add: similarityScore_unfold normalize_chat [OF h] normalize_chien [OF h]
        distance_chat_chien word_chat_length)
  show ?thesis
    using h
      evaluatePronunciation_tiers [of "[utf16 ''chat'']" latin1_host
        "\<lparr>fr_cardId = 1, fr_sentence = Some (utf16 ''chat'')\<rparr>" True 1]
      evaluatePronunciation_tiers [of "[utf16 ''chats'']" latin1_host
        "\<lparr>fr_cardId = 1, fr_sentence = Some (utf16 ''chat'')\<rparr>" True 1]
      evaluatePronunciation_tiers [of "[utf16 ''chien'']" latin1_host
        "\<lparr>fr_cardId = 1, fr_sentence = Some (utf16 ''chat'')\<rparr>" True 1]
      evaluatePronunciation_tiers [of "[utf16 '' '']" latin1_host
        "\<lparr>fr_cardId = 1, fr_sentence = Some (utf16 ''chat'')\<rparr>" True 1]
    by (simp add: trim_chats word_chat_nonempty Let_def s1 s2)
qed

text \<open>
  C7. Normalization is idempotent: normalizing a normalized string changes nothing, on
  every platform whose two built-ins follow the Unicode character database.
\<close>

theorem normalizeForCompare_idempotent:
  assumes "unicode_platform P"
  shows "normalizeForCompare P (normalizeForCompare P x) = normalizeForCompare P x"
proof -
  define u where "u = collapse (toLowerCase P (strip_marks (normalize_NFD P x)))"
  define r where "r = js_trim u"
  have r: "normalizeForCompare P x = r"
    by (simp add: normalizeForCompare_def r_def u_def)
  have col: "collapsed r"
    unfolding r_def u_def by (intro collapsed_js_trim collapsed_collapse)
  have units: "\<forall>c \<in> set r. nfd_inert c \<and> caseless c \<and> \<not> (0x300 \<le> c \<and> c \<le> 0x36F)"
  proof
    fix c assume c: "c \<in> set r"
    have "c \<noteq> 0xE7" using normalizeForCompare_no_cedilla [OF assms, of x] c r by auto
    then show "nfd_inert c \<and> caseless c \<and> \<not> (0x300 \<le> c \<and> c \<le> 0x36F)"
      using collapsed_units [OF col c] keep_unit_inert by blast
  qed
  have 1: "normalize_NFD P r = r"
    using assms units unfolding unicode_platform_def by (simp add: list_all_iff)
  have 2: "strip_marks r = r"
    unfolding strip_marks_def using units by (simp add: filter_id_conv)
  have 3: "toLowerCase P r = r"
    using assms units unfolding unicode_platform_def by (simp add: list_all_iff)
  have 4: "collapse r = r" by (rule collapse_fixed [OF col])
  have 5: "js_trim r = r" unfolding r_def by (rule js_trim_idem)
  show ?thesis
    unfolding r by (simp add: normalizeForCompare_def 1 2 3 4 5)
qed

theorem normalizeForCompare_idempotent_witness:
  "unicode_platform latin1_host \<and>
   normalizeForCompare latin1_host [0xC7, 0x61, 0x20, 0x20, 0x56, 0x41, 0x3F] = utf16 ''ca va'' \<and>
   normalizeForCompare latin1_host
     (normalizeForCompare latin1_host [0xC7, 0x61, 0x20, 0x20, 0x56, 0x41, 0x3F]) =
   normalizeForCompare latin1_host [0xC7, 0x61, 0x20, 0x20, 0x56, 0x41, 0x3F]"
proof -
  have v: "normalizeForCompare latin1_host [0xC7, 0x61, 0x20, 0x20, 0x56, 0x41, 0x3F]
           = utf16 ''ca va''"
    by (simp add: host_eval)
  show ?thesis
    using normalizeForCompare_idempotent [OF latin1_host_unicode,
        of "[0xC7, 0x61, 0x20, 0x20, 0x56, 0x41, 0x3F]"] latin1_host_unicode v
    by simp
qed

text \<open>
  C8. The Levenshtein distance computed by the code is symmetric:
  \<open>levenshtein(a, b) = levenshtein(b, a)\<close> for every pair of strings.
\<close>

theorem levenshtein_symmetric: "levenshtein a b = levenshtein b a"
  using lev_sym [of a b] by (simp add: levenshtein_eq_lev)

text \<open>
  C9. For every pair of input strings the similarity score lies in the closed interval
  from 0 to 1, and the distance computed by \<open>levenshtein\<close> never exceeds the length of the
  longer string.
\<close>

theorem similarityScore_in_unit_interval:
  "0 \<le> similarityScore P expected actual \<and> similarityScore P expected actual \<le> 1 \<and>
   levenshtein a b \<le> max (length a) (length b)"
proof -
  define E where "E = normalizeForCompare P expected"
  define A where "A = normalizeForCompare P actual"
  have d: "real (levenshtein E A) \<le> real (max (length E) (length A))"
    using levenshtein_le_max [of E A] by (simp only: of_nat_le_iff)
  have "0 \<le> similarityScore P expected actual \<and> similarityScore P expected actual \<le> 1"
  proof (cases "E = [] \<or> A = []")
    case True
    then show ?thesis by (auto simp: similarityScore_unfold E_def A_def)
  next
    case False
    then have pos: "0 < real (max (length E) (length A))" by (cases E) simp_all
    have q: "real (levenshtein E A) / real (max (length E) (length A)) \<le> 1"
      using d pos by (simp add: divide_le_eq)
    have q0: "0 \<le> real (levenshtein E A) / real (max (length E) (length A))"
      by simp
    have "similarityScore P expected actual =
            1 - real (levenshtein E A) / real (max (length E) (length A))"
      using False by (simp add: similarityScore_unfold E_def A_def)
    then show ?thesis using q q0 by linarith
  qed
  then show ?thesis using levenshtein_le_max [of a b] by simp
qed

section \<open>Claims about the token rendering\<close>

text \<open>
  C5. For every token sequence, \<open>renderTokens\<close> joins the spans of the tokens with a single
  space, except that no space is inserted before a token whose text is a single closing
  punctuation character and none after a token whose text is a single opening bracket or
  quote; each token is wrapped in a span whose class is \<open>diff-match\<close> for the status
  "match" and \<open>diff-miss\<close> for the status "missing"; the tokens "le" (match) and "chat"
  (missing) render as the two spans of the example, joined by one space.
\<close>

theorem renderTokens_joins_spans:
  \<open>renderTokens (Some ts) = join_spans ts \<and>
   (tok_status t = utf16 ''match'' \<longrightarrow>
      html t = utf16 ''<span class="diff-match">'' @ escapeHtml (tok_text t) @ utf16 ''</span>'') \<and>
   (tok_status t = utf16 ''missing'' \<longrightarrow>
      html t = utf16 ''<span class="diff-miss">'' @ escapeHtml (tok_text t) @ utf16 ''</span>'') \<and>
   renderTokens (Some [\<lparr>tok_text = utf16 ''le'', tok_status = utf16 ''match''\<rparr>,
                       \<lparr>tok_text = utf16 ''chat'', tok_status = utf16 ''missing''\<rparr>]) =
     utf16 ''<span class="diff-match">le</span> <span class="diff-miss">chat</span>''\<close>
proof (intro conjI impI)
  show "renderTokens (Some ts) = join_spans ts"
    by (rule renderTokens_join_spans)
  show \<open>html t = utf16 ''<span class="diff-match">'' @ escapeHtml (tok_text t) @ utf16 ''</span>''\<close>
    if "tok_status t = utf16 ''match''"
    using that by (simp add: html_def cls_def utf16_def)
  show \<open>html t = utf16 ''<span class="diff-miss">'' @ escapeHtml (tok_text t) @ utf16 ''</span>''\<close>
    if "tok_status t = utf16 ''missing''"
    using that by (simp add: html_def cls_def utf16_def)
  show \<open>renderTokens (Some [\<lparr>tok_text = utf16 ''le'', tok_status = utf16 ''match''\<rparr>,
                       \<lparr>tok_text = utf16 ''chat'', tok_status = utf16 ''missing''\<rparr>]) =
     utf16 ''<span class="diff-match">le</span> <span class="diff-miss">chat</span>''\<close>
    by (simp add: renderTokens_join_spans html_def cls_def escapeHtml_def replace_all_def
        closing_punctuation_def opening_bracket_def utf16_def)
qed

theorem renderTokens_joins_spans_witness:
  \<open>tok_status \<lparr>tok_text = utf16 ''le'', tok_status = utf16 ''match''\<rparr> = utf16 ''match'' \<and>
   html \<lparr>tok_text = utf16 ''le'', tok_status = utf16 ''match''\<rparr> =
     utf16 ''<span class="diff-match">le</span>'' \<and>
   tok_status \<lparr>tok_text = utf16 ''<chat>'', tok_status = utf16 ''missing''\<rparr> = utf16 ''missing'' \<and>
   html \<lparr>tok_text = utf16 ''<chat>'', tok_status = utf16 ''missing''\<rparr> =
     utf16 ''<span class="diff-miss">&lt;chat&gt;</span>'' \<and>
   renderTokens (Some [\<lparr>tok_text = utf16 ''('', tok_status = utf16 ''match''\<rparr>,
                       \<lparr>tok_text = utf16 ''le'', tok_status = utf16 ''match''\<rparr>,
                       \<lparr>tok_text = utf16 ''<chat>'', tok_status = utf16 ''missing''\<rparr>,
                       \<lparr>tok_text = utf16 '')'', tok_status = utf16 ''match''\<rparr>]) =
     utf16 ''<span class="diff-match">(</span><span class="diff-match">le</span> <span class="diff-miss">&lt;chat&gt;</span><span class="diff-match">)</span>''\<close>
  using renderTokens_joins_spans [of
      "[\<lparr>tok_text = utf16 ''('', tok_status = utf16 ''match''\<rparr>,
        \<lparr>tok_text = utf16 ''le'', tok_status = utf16 ''match''\<rparr>,
        \<lparr>tok_text = utf16 ''<chat>'', tok_status = utf16 ''missing''\<rparr>,
        \<lparr>tok_text = utf16 '')'', tok_status = utf16 ''match''\<rparr>]"
      "\<lparr>tok_text = utf16 ''le'', tok_status = utf16 ''match''\<rparr>"]
    renderTokens_joins_spans [of "[]"
      "\<lparr>tok_text = utf16 ''<chat>'', tok_status = utf16 ''missing''\<rparr>"]
  by (simp add: html_def cls_def escapeHtml_def replace_all_def
      closing_punctuation_def opening_bracket_def utf16_def)

text \<open>
  C10. \<open>renderTokens\<close> is total over token lists: a missing or an empty token list renders
  to the empty string, every list renders to the concatenation, token by token, of the
  separator and the span of the token, and a token whose status is neither "match" nor
  "missing", whatever else it is, gets the class \<open>diff-extra\<close>.
\<close>

theorem renderTokens_total:
  \<open>renderTokens None = [] \<and> renderTokens (Some []) = [] \<and>
   renderTokens (Some ts) = concat (map (\<lambda>i. separator ts i @ html (ts ! i)) [0..<length ts]) \<and>
   (tok_status t \<noteq> utf16 ''match'' \<and> tok_status t \<noteq> utf16 ''missing'' \<longrightarrow>
      html t = utf16 ''<span class="diff-extra">'' @ escapeHtml (tok_text t) @ utf16 ''</span>'')\<close>
proof (intro conjI impI)
  show "renderTokens None = []" "renderTokens (Some []) = []"
    by (simp_all add: renderTokens_def)
  show "renderTokens (Some ts) = concat (map (\<lambda>i. separator ts i @ html (ts ! i)) [0..<length ts])"
    by (rule renderTokens_pieces)
  show \<open>html t = utf16 ''<span class="diff-extra">'' @ escapeHtml (tok_text t) @ utf16 ''</span>''\<close>
    if "tok_status t \<noteq> utf16 ''match'' \<and> tok_status t \<noteq> utf16 ''missing''"
    using that by (simp add: html_def cls_def utf16_def)
qed

theorem renderTokens_total_witness:
  \<open>tok_status \<lparr>tok_text = utf16 ''chien'', tok_status = utf16 ''unknown''\<rparr> \<noteq> utf16 ''match'' \<and>
   tok_status \<lparr>tok_text = utf16 ''chien'', tok_status = utf16 ''unknown''\<rparr> \<noteq> utf16 ''missing'' \<and>
   html \<lparr>tok_text = utf16 ''chien'', tok_status = utf16 ''unknown''\<rparr> =
     utf16 ''<span class="diff-extra">chien</span>'' \<and>
   renderTokens (Some [\<lparr>tok_text = utf16 ''chien'', tok_status = utf16 ''unknown''\<rparr>]) =
     utf16 ''<span class="diff-extra">chien</span>''\<close>
  using renderTokens_total [of "[\<lparr>tok_text = utf16 ''chien'', tok_status = utf16 ''unknown''\<rparr>]"
      "\<lparr>tok_text = utf16 ''chien'', tok_status = utf16 ''unknown''\<rparr>"]
  by (simp add: separator_def escapeHtml_def replace_all_def utf16_def)

section \<open>Claims about the controller\<close>

lemmas page_eval =
  revealed_page_def racing_page_def initial_page_def revealBtn_click_finish_def
  revealBtn_click_def nextBtn_click_def showAnswer_enter_def showAnswer_finish_def
  render_current_buttons_def renderEaseButtons_def loadCard_response_def loadCard_enter_def
  clearUI_def easeBtn_click_def submitAnswer_enter_def submitAnswer_failed_def

text \<open>
  C6, as stated: both the reveal action and the rating action are guarded by the
  \<open>answerShown\<close> flag, so that the rating cannot be submitted twice for a card. On the page
  where card 7 has been revealed, with \<open>answerShown\<close> set, two invocations of
  \<open>submitAnswer\<close> send the rating of card 7 twice. By clicks alone: on the page of the
  second run the user clicks the ease button 3 of card 2; while that request is pending
  the handler of the first reveal click resumes and renders the ease buttons of the
  current card afresh, enabled; the user clicks the button 3 again, and the rating of card
  2 is sent a second time, with no failure in between.
\<close>

theorem rating_sent_twice:
  "answerShown revealed_page \<and>
   requests (fst (submitAnswer_enter 3 (fst (submitAnswer_enter 3 revealed_page)))) =
     [GetNext, PostReveal, PostAnswer 7 3, PostAnswer 7 3] \<and>
   answerShown racing_page \<and>
   requests (fst (easeBtn_click 3 (revealBtn_click_finish (utf16 ''chat'')
                    (fst (easeBtn_click 3 racing_page))))) =
     [GetNext, PostReveal, GetNext, PostReveal, PostAnswer 2 3, PostAnswer 2 3]"
  by (simp add: page_eval)

text \<open>
  C6, amended. The reveal action is guarded by \<open>answerShown\<close>: once the flag is set for the
  current card, a further invocation of \<open>showAnswer\<close> returns at its guard, changes nothing
  and sends nothing. The rating action does not read the flag: \<open>submitAnswer\<close> returns early
  only when there is no current card, and otherwise sends the rating, one request for each
  invocation. Before it sends the request, \<open>submitAnswer\<close> disables every ease button then
  on the page and the reveal and next buttons, so that in the state it leaves a click on
  any of these buttons does nothing. When the submission fails, the \<open>catch\<close> block enables
  the ease buttons and the reveal and next buttons again, with the card and the flag
  unchanged, and a click on an ease button sends the rating again for the same card.
\<close>

theorem reveal_guarded_rating_locked:
  "(answerShown s \<longrightarrow> showAnswer_enter s = (s, False)) \<and>
   (currentCard s = None \<longrightarrow> submitAnswer_enter ease s = (s, False)) \<and>
   (currentCard s = Some c \<longrightarrow>
      snd (submitAnswer_enter ease s) \<and>
      requests (fst (submitAnswer_enter ease s)) = requests s @ [PostAnswer (cardId c) ease] \<and>
      list_all snd (easeButtons (fst (submitAnswer_enter ease s))) \<and>
      revealBtn_disabled (fst (submitAnswer_enter ease s)) \<and>
      nextBtn_disabled (fst (submitAnswer_enter ease s)) \<and>
      easeBtn_click ease' (fst (submitAnswer_enter ease s)) =
        (fst (submitAnswer_enter ease s), False) \<and>
      revealBtn_click (fst (submitAnswer_enter ease s)) =
        (fst (submitAnswer_enter ease s), False) \<and>
      nextBtn_click (fst (submitAnswer_enter ease s)) = fst (submitAnswer_enter ease s)) \<and>
   list_all (\<lambda>b. \<not> snd b) (easeButtons (submitAnswer_failed msg s)) \<and>
   \<not> revealBtn_disabled (submitAnswer_failed msg s) \<and>
   \<not> nextBtn_disabled (submitAnswer_failed msg s) \<and>
   currentCard (submitAnswer_failed msg s) = currentCard s \<and>
   answerShown (submitAnswer_failed msg s) = answerShown s \<and>
   (currentCard s = Some c \<and> ease' \<in> fst ` set (easeButtons s) \<longrightarrow>
      snd (easeBtn_click ease' (submitAnswer_failed msg (fst (submitAnswer_enter ease s)))) \<and>
      requests (fst (easeBtn_click ease'
                       (submitAnswer_failed msg (fst (submitAnswer_enter ease s))))) =
        requests s @ [PostAnswer (cardId c) ease, PostAnswer (cardId c) ease'])"
proof -
  have guard: "answerShown s \<longrightarrow> showAnswer_enter s = (s, False)"
    by (simp add: showAnswer_enter_def)
  have none: "currentCard s = None \<longrightarrow> submitAnswer_enter ease s = (s, False)"
    by (simp add: submitAnswer_enter_def)
  have lock: "currentCard s = Some c \<longrightarrow>
      snd (submitAnswer_enter ease s) \<and>
      requests (fst (submitAnswer_enter ease s)) = requests s @ [PostAnswer (cardId c) ease] \<and>
      list_all snd (easeButtons (fst (submitAnswer_enter ease s))) \<and>
      revealBtn_disabled (fst (submitAnswer_enter ease s)) \<and>
      nextBtn_disabled (fst (submitAnswer_enter ease s)) \<and>
      easeBtn_click ease' (fst (submitAnswer_enter ease s)) =
        (fst (submitAnswer_enter ease s), False) \<and>
      revealBtn_click (fst (submitAnswer_enter ease s)) =
        (fst (submitAnswer_enter ease s), False) \<and>
      nextBtn_click (fst (submitAnswer_enter ease s)) = fst (submitAnswer_enter ease s)"
    by (auto simp: submitAnswer_enter_def easeBtn_click_def revealBtn_click_def
        nextBtn_click_def list_all_iff)
  have failed: "list_all (\<lambda>b. \<not> snd b) (easeButtons (submitAnswer_failed msg s)) \<and>
      \<not> revealBtn_disabled (submitAnswer_failed msg s) \<and>
      \<not> nextBtn_disabled (submitAnswer_failed msg s) \<and>
      currentCard (submitAnswer_failed msg s) = currentCard s \<and>
      answerShown (submitAnswer_failed msg s) = answerShown s"
    by (auto simp: submitAnswer_failed_def list_all_iff)
  have retry: "currentCard s = Some c \<and> ease' \<in> fst ` set (easeButtons s) \<longrightarrow>
      snd (easeBtn_click ease' (submitAnswer_failed msg (fst (submitAnswer_enter ease s)))) \<and>
      requests (fst (easeBtn_click ease'
                       (submitAnswer_failed msg (fst (submitAnswer_enter ease s))))) =
        requests s @ [PostAnswer (cardId c) ease, PostAnswer (cardId c) ease']"
  proof
    assume a: "currentCard s = Some c \<and> ease' \<in> fst ` set (easeButtons s)"
    define t where "t = submitAnswer_failed msg (fst (submitAnswer_enter ease s))"
    have btn: "easeButtons t = map (\<lambda>b. (fst b, False)) (easeButtons s)"
      using a by (simp add: t_def submitAnswer_failed_def submitAnswer_enter_def
          case_prod_unfold)
    have enabled: "(ease', False) \<in> set (easeButtons t)"
      using a unfolding btn by force
    have cur: "currentCard t = Some c"
      using a by (simp add: t_def submitAnswer_failed_def submitAnswer_enter_def)
    have req: "requests t = requests s @ [PostAnswer (cardId c) ease]"
      using a by (simp add: t_def submitAnswer_failed_def submitAnswer_enter_def)
    show "snd (easeBtn_click ease' (submitAnswer_failed msg (fst (submitAnswer_enter ease s)))) \<and>
      requests (fst (easeBtn_click ease'
                       (submitAnswer_failed msg (fst (submitAnswer_enter ease s))))) =
        requests s @ [PostAnswer (cardId c) ease, PostAnswer (cardId c) ease']"
      unfolding t_def [symmetric]
      using enabled cur req by (simp add: easeBtn_click_def submitAnswer_enter_def)
  qed
  show ?thesis using guard none lock failed retry by blast
qed

theorem reveal_guarded_rating_locked_witness:
  "answerShown revealed_page \<and>
   showAnswer_enter revealed_page = (revealed_page, False) \<and>
   currentCard initial_page = None \<and>
   submitAnswer_enter 3 initial_page = (initial_page, False) \<and>
   currentCard revealed_page = Some \<lparr>cardId = 7, buttons = Some [1, 2, 3, 4]\<rparr> \<and>
   requests (fst (submitAnswer_enter 3 revealed_page)) = [GetNext, PostReveal, PostAnswer 7 3] \<and>
   easeBtn_click 2 (fst (submitAnswer_enter 3 revealed_page)) =
     (fst (submitAnswer_enter 3 revealed_page), False) \<and>
   2 \<in> fst ` set (easeButtons revealed_page) \<and>
   requests (fst (easeBtn_click 2
       (submitAnswer_failed (utf16 ''stale card'') (fst (submitAnswer_enter 3 revealed_page))))) =
     [GetNext, PostReveal, PostAnswer 7 3, PostAnswer 7 2]"
proof -
  have a: "answerShown revealed_page" by (simp add: page_eval)
  have c: "currentCard revealed_page = Some \<lparr>cardId = 7, buttons = Some [1, 2, 3, 4]\<rparr>"
    by (simp add: page_eval)
  have n: "currentCard initial_page = None" by (simp add: initial_page_def)
  have r: "requests revealed_page = [GetNext, PostReveal]" by (simp add: page_eval)
  have b: "2 \<in> fst ` set (easeButtons revealed_page)" by (simp add: page_eval)
  show ?thesis
    using reveal_guarded_rating_locked [of revealed_page 3
        "\<lparr>cardId = 7, buttons = Some [1, 2, 3, 4]\<rparr>" 2 "utf16 ''stale card''"]
      reveal_guarded_rating_locked [of initial_page 3 "\<lparr>cardId = 7, buttons = None\<rparr>" 2 "[]"]
      a c n r b
    by simp
qed

end
